theory Spec2Isabelle
  imports Complex_Main
begin

section \<open>R2KS: data model\<close>

text \<open>
  The program is \<^verbatim>\<open>src/r2ks.cpp\<close>. C++ \<^verbatim>\<open>unsigned int\<close> values are natural numbers
  here; where the source multiplies two of them the wrap-around \<open>mod 2 ^ 32\<close> is written
  out. \<^verbatim>\<open>float\<close> and \<^verbatim>\<open>double\<close> values are real numbers: rounding is not modelled, so
  every statement about a score is a statement about the exact arithmetic the source
  writes down. The conversions \<^verbatim>\<open>unsigned int\<close> to \<^verbatim>\<open>float\<close> and back
  (\<^verbatim>\<open>float pivot = buff[ivalue]\<close>) are the identity, which is what they are below \<open>2 ^ 24\<close>.
\<close>

text \<open>
  \<^verbatim>\<open>struct Options\<close>. The file name is left out: the contents of the file are a parameter
  of the functions that read it.
\<close>

record Options =
  num_genes :: nat
  num_lists :: nat
  pivot :: nat
  two_tailed :: bool
  num_procs :: nat
  mpi_id :: nat

text \<open>
  The source has no error path: nothing is checked, thrown or returned as a failure. What
  can go wrong is undefined behaviour of C++, and the model stops there. \<open>UB_OutOfBounds\<close>
  is an access through \<^verbatim>\<open>operator[]\<close> outside a \<^verbatim>\<open>std::vector\<close> (which does no range
  check); \<open>UB_DivisionByZero\<close> is a division whose second operand is zero.
\<close>

datatype error = UB_OutOfBounds | UB_DivisionByZero

section \<open>The weight function\<close>

text \<open>
  \<^verbatim>\<open>
  double calculateWeight(unsigned int idx, unsigned int pivot) {
    if (pivot == 0)
      return 1.0;
    double h = static_cast<double>(pivot) - static_cast<double>(idx);
    double w = h < 0.0 ? 1.0 : h * (h + 1.0) / 2.0;
    return w;
  }
  \<close>
\<close>

definition calculateWeight :: "nat \<Rightarrow> nat \<Rightarrow> real" where
  "calculateWeight idx pv =
     (if pv = 0 then 1
      else let h = real pv - real idx
           in if h < 0 then 1 else h * (h + 1) / 2)"

section \<open>The pairwise scorer\<close>

text \<open>
  \<^verbatim>\<open>typedef struct { unsigned int pos_y; double value; } History;\<close> The field
  \<^verbatim>\<open>value\<close> is \<open>hvalue\<close> here. The two variables the scan of \<^verbatim>\<open>scoreLists\<close> mutates
  are the vector \<^verbatim>\<open>history\<close> and the running maximum \<^verbatim>\<open>rvalue\<close>.
\<close>

record History =
  pos_y :: nat
  hvalue :: real

record Scan =
  history :: "History list"
  rvalue :: real

text \<open>
  \<^verbatim>\<open>
  float total_weight = 0.0;
  for (unsigned int i = 0; i < gene_list0.size(); ++i)
    total_weight += calculateWeight(i, options.pivot);
  \<close>
\<close>

definition total_weight :: "Options \<Rightarrow> nat list \<Rightarrow> real" where
  "total_weight options gene_list0 =
     foldl (\<lambda>acc i. acc + calculateWeight i (pivot options)) 0 [0..<length gene_list0]"

text \<open>
  \<^verbatim>\<open>
  std::vector<unsigned int> buff (gene_list0.size());
  for (unsigned int i = 0; i < gene_list0.size(); ++i)
    buff[ gene_list1[i] ] = i;
  \<close>
  \<open>fill_buff\<close> is the loop over the indices still to do; both the read of
  \<^verbatim>\<open>gene_list1[i]\<close> and the write into \<^verbatim>\<open>buff\<close> are unchecked in the source.
\<close>

fun fill_buff :: "nat list \<Rightarrow> nat list \<Rightarrow> nat list \<Rightarrow> error + nat list" where
  "fill_buff gene_list1 [] buff = Inr buff"
| "fill_buff gene_list1 (i # rest) buff =
     (if i < length gene_list1 \<and> gene_list1 ! i < length buff
      then fill_buff gene_list1 rest (buff[gene_list1 ! i := i])
      else Inl UB_OutOfBounds)"

definition build_buff :: "nat list \<Rightarrow> nat list \<Rightarrow> error + nat list" where
  "build_buff gene_list0 gene_list1 =
     fill_buff gene_list1 [0..<length gene_list0] (replicate (length gene_list0) 0)"

text \<open>
  \<^verbatim>\<open>
  double second_term = static_cast<double>((nh.pos_y+1) * (i+1)) * one_over;
  double nvalue = (nh.value / total_weight) - second_term;
  rvalue = nvalue > rvalue ? nvalue : rvalue;
  \<close>
  The product is an \<^verbatim>\<open>unsigned int\<close> product, converted afterwards. The divisor
  \<^verbatim>\<open>total_weight\<close> is above 0 whenever \<^verbatim>\<open>gene_list0\<close> is not empty (lemma
  \<open>total_weight_pos\<close> below), which it is where the source reaches this division.
\<close>

definition nvalue :: "real \<Rightarrow> real \<Rightarrow> nat \<Rightarrow> History \<Rightarrow> real" where
  "nvalue tw one_over i e =
     hvalue e / tw - real (((pos_y e + 1) * (i + 1)) mod 2 ^ 32) * one_over"

definition update_rvalue :: "real \<Rightarrow> real \<Rightarrow> real" where
  "update_rvalue nv rv = (if nv > rv then nv else rv)"

text \<open>
  The backward walk of the else branch, with the iterator \<^verbatim>\<open>it\<close> as an index into
  \<^verbatim>\<open>history\<close>:
  \<^verbatim>\<open>
  std::vector<History>::iterator it = history.end();
  for (it--; it != history.begin() && it->pos_y > pivot; it--){
    if (it->pos_y > pivot){
      it->value += w;
      double second_term = static_cast<double>((it->pos_y+1) * (i+1)) * one_over;
      double nvalue = (it->value / total_weight) - second_term;
      rvalue = nvalue > rvalue ? nvalue : rvalue;
    }
  }
  \<close>
  \<open>trawl\<close> is called with the index of the last entry; it returns the index the loop
  leaves \<^verbatim>\<open>it\<close> at. At index 0 (\<^verbatim>\<open>it == history.begin()\<close>) the loop ends without looking
  at the entry.
\<close>

fun trawl :: "real \<Rightarrow> real \<Rightarrow> nat \<Rightarrow> nat \<Rightarrow> real \<Rightarrow> nat \<Rightarrow> Scan \<Rightarrow> nat \<times> Scan" where
  "trawl tw one_over i pv w 0 s = (0, s)"
| "trawl tw one_over i pv w (Suc k) s =
     (if pos_y (history s ! Suc k) > pv
      then let e = history s ! Suc k;
               e' = e\<lparr>hvalue := hvalue e + w\<rparr>
           in trawl tw one_over i pv w k
                \<lparr>history = (history s)[Suc k := e'],
                 rvalue = update_rvalue (nvalue tw one_over i e') (rvalue s)\<rparr>
      else (Suc k, s))"

text \<open>
  One pass of the body of \<^verbatim>\<open>for (unsigned int i = 1; i < options.num_genes; ++i)\<close>:
  the append of the then branch (\<^verbatim>\<open>pivot > lh.pos_y\<close>), or the walk and
  \<^verbatim>\<open>history.insert(it+1, nh)\<close> of the else branch.
\<close>

definition step :: "Options \<Rightarrow> nat list \<Rightarrow> nat list \<Rightarrow> real \<Rightarrow> real \<Rightarrow> nat \<Rightarrow> Scan \<Rightarrow> error + Scan" where
  "step options gene_list0 buff tw one_over i s =
     (if i < length gene_list0 \<and> gene_list0 ! i < length buff \<and> history s \<noteq> []
      then
        let ivalue = gene_list0 ! i;
            pv = buff ! ivalue;
            iw = calculateWeight i (pivot options);
            jw = calculateWeight pv (pivot options);
            w = (if iw < jw then iw else jw);
            lh = history s ! (length (history s) - 1)
        in if pv > pos_y lh
           then
             let nh = \<lparr>pos_y = pv, hvalue = hvalue lh + w\<rparr>
             in Inr \<lparr>history = history s @ [nh],
                     rvalue = update_rvalue (nvalue tw one_over i nh) (rvalue s)\<rparr>
           else
             let (it, s') = trawl tw one_over i pv w (length (history s) - 1) s;
                 nh = \<lparr>pos_y = pv, hvalue = hvalue (history s' ! it) + w\<rparr>
             in Inr \<lparr>history = take (it + 1) (history s') @ nh # drop (it + 1) (history s'),
                     rvalue = update_rvalue (nvalue tw one_over i nh) (rvalue s')\<rparr>
      else Inl UB_OutOfBounds)"

fun steps :: "Options \<Rightarrow> nat list \<Rightarrow> nat list \<Rightarrow> real \<Rightarrow> real \<Rightarrow> nat list \<Rightarrow> Scan \<Rightarrow> error + Scan" where
  "steps options gene_list0 buff tw one_over [] s = Inr s"
| "steps options gene_list0 buff tw one_over (i # rest) s =
     (case step options gene_list0 buff tw one_over i s of
        Inl e \<Rightarrow> Inl e
      | Inr s' \<Rightarrow> steps options gene_list0 buff tw one_over rest s')"

text \<open>
  The block before the loop (\<^verbatim>\<open>// First line has no history, so we do this one separately\<close>):
  it pushes the first entry and leaves \<^verbatim>\<open>rvalue\<close> at its initial \<open>0.0\<close>.
\<close>

definition first_line :: "Options \<Rightarrow> nat list \<Rightarrow> nat list \<Rightarrow> error + Scan" where
  "first_line options gene_list0 buff =
     (if 0 < length gene_list0 \<and> gene_list0 ! 0 < length buff
      then
        let ivalue = gene_list0 ! 0;
            pv = buff ! ivalue;
            w = calculateWeight 0 (pivot options);
            nh = \<lparr>pos_y = pv, hvalue = w\<rparr>
        in Inr \<lparr>history = [nh], rvalue = 0\<rparr>
      else Inl UB_OutOfBounds)"

text \<open>
  \<open>scan_upto options gene_list0 gene_list1 m\<close> is the state of \<^verbatim>\<open>scoreLists\<close> when the
  loop variable \<^verbatim>\<open>i\<close> has reached \<open>m\<close>: after the first line and the passes
  \<open>1, ..., m - 1\<close>. The source computes, in this order, \<^verbatim>\<open>total_weight\<close>, \<^verbatim>\<open>buff\<close> and
  \<^verbatim>\<open>double one_over = 1.0 / (options.num_genes * options.num_genes)\<close>, whose divisor is
  an \<^verbatim>\<open>unsigned int\<close> product.
\<close>

definition scan_upto :: "Options \<Rightarrow> nat list \<Rightarrow> nat list \<Rightarrow> nat \<Rightarrow> error + Scan" where
  "scan_upto options gene_list0 gene_list1 m =
     (let tw = total_weight options gene_list0
      in case build_buff gene_list0 gene_list1 of
           Inl e \<Rightarrow> Inl e
         | Inr buff \<Rightarrow>
             if (num_genes options * num_genes options) mod 2 ^ 32 = 0
             then Inl UB_DivisionByZero
             else
               let one_over = 1 / real ((num_genes options * num_genes options) mod 2 ^ 32)
               in (case first_line options gene_list0 buff of
                     Inl e \<Rightarrow> Inl e
                   | Inr s \<Rightarrow> steps options gene_list0 buff tw one_over [1..<m] s))"

text \<open>\<^verbatim>\<open>return rvalue * sqrt(options.num_genes);\<close>\<close>

definition scoreLists :: "Options \<Rightarrow> nat list \<Rightarrow> nat list \<Rightarrow> error + real" where
  "scoreLists options gene_list0 gene_list1 =
     (case scan_upto options gene_list0 gene_list1 (num_genes options) of
        Inl e \<Rightarrow> Inl e
      | Inr s \<Rightarrow> Inr (rvalue s * sqrt (real (num_genes options))))"

section \<open>The list reader\<close>

text \<open>
  The input file is a list of lines, each the list of its whitespace-separated numbers
  (files of unsigned decimal numbers, as the format has them; a token that is not a
  number would end the reading as the end of the file does);
  line 0 is the header. \<^verbatim>\<open>fin.ignore(max, '\n')\<close>, \<open>idx\<close> times, drops \<open>idx\<close> lines.
  \<^verbatim>\<open>fin >> gene_expression\<close> skips white space, newlines included, so what the loop reads
  from is the numbers of all the lines that are left, one after the other; the
  extraction fails at the end of the file and on a number that does not fit an
  \<^verbatim>\<open>unsigned int\<close>.
  \<^verbatim>\<open>
  unsigned int gene_expression;
  unsigned int gidx = 0;
  while (fin >> gene_expression && gidx < options.num_genes) {
    gene_list[gene_expression] = gidx;
    gidx++;
  }
  \<close>
  \<open>read_loop\<close> returns the final \<^verbatim>\<open>gidx\<close>, the number of stores done, with the vector.
\<close>

type_synonym input_file = "nat list list"

fun read_loop :: "Options \<Rightarrow> nat list \<Rightarrow> nat \<Rightarrow> nat list \<Rightarrow> error + nat \<times> nat list" where
  "read_loop options [] gidx gene_list = Inr (gidx, gene_list)"
| "read_loop options (gene_expression # rest) gidx gene_list =
     (if gene_expression < 2 ^ 32 \<and> gidx < num_genes options
      then if gene_expression < length gene_list
           then read_loop options rest (gidx + 1) (gene_list[gene_expression := gidx])
           else Inl UB_OutOfBounds
      else Inr (gidx, gene_list))"

definition read_line :: "Options \<Rightarrow> input_file \<Rightarrow> nat \<Rightarrow> nat list \<Rightarrow> error + nat \<times> nat list" where
  "read_line options fin idx gene_list = read_loop options (concat (drop idx fin)) 0 gene_list"

text \<open>
  \<^verbatim>\<open>void readLineIndex(Options & options, int idx, std::vector<unsigned int> & gene_list)\<close>:
  the caller sees the vector only.
\<close>

definition readLineIndex :: "Options \<Rightarrow> input_file \<Rightarrow> nat \<Rightarrow> nat list \<Rightarrow> error + nat list" where
  "readLineIndex options fin idx gene_list =
     (case read_line options fin idx gene_list of
        Inl e \<Rightarrow> Inl e
      | Inr (gidx, gene_list') \<Rightarrow> Inr gene_list')"

section \<open>Scoring one pair\<close>

text \<open>
  The body of the pair loop, the same in \<^verbatim>\<open>main\<close> and in \<^verbatim>\<open>clientProcess\<close>:
  \<^verbatim>\<open>
  float rvalue = scoreLists(ops, gene_list0, gene_list1 );
  if (ops.two_tailed){
    std::reverse(gene_list1.begin(), gene_list1.end());
    float tvalue = scoreLists(ops, gene_list0, gene_list1 );
    rvalue = tvalue > rvalue ? tvalue : rvalue;
  }
  \<close>
\<close>

definition scorePair :: "Options \<Rightarrow> nat list \<Rightarrow> nat list \<Rightarrow> error + real" where
  "scorePair options gene_list0 gene_list1 =
     (case scoreLists options gene_list0 gene_list1 of
        Inl e \<Rightarrow> Inl e
      | Inr rv \<Rightarrow>
          if two_tailed options
          then (case scoreLists options gene_list0 (rev gene_list1) of
                  Inl e \<Rightarrow> Inl e
                | Inr tvalue \<Rightarrow> Inr (if tvalue > rv then tvalue else rv))
          else Inr rv)"

text \<open>
  \<^verbatim>\<open>
  std::vector<unsigned int> gene_list0(ops.num_genes);
  std::vector<unsigned int> gene_list1(ops.num_genes);
  readLineIndex(ops, l0, gene_list0);
  readLineIndex(ops, l1, gene_list1);
  \<close>
  followed by the scoring above. The vectors start filled with zeros.
\<close>

definition processPair :: "Options \<Rightarrow> input_file \<Rightarrow> nat \<Rightarrow> nat \<Rightarrow> error + real" where
  "processPair options fin l0 l1 =
     (case readLineIndex options fin l0 (replicate (num_genes options) 0) of
        Inl e \<Rightarrow> Inl e
      | Inr gene_list0 \<Rightarrow>
          (case readLineIndex options fin l1 (replicate (num_genes options) 0) of
             Inl e \<Rightarrow> Inl e
           | Inr gene_list1 \<Rightarrow> scorePair options gene_list0 gene_list1))"

section \<open>Distributing the pairs\<close>

text \<open>
  \<^verbatim>\<open>masterProcess\<close>, which \<^verbatim>\<open>main\<close> calls only when \<^verbatim>\<open>num_procs > 1\<close>:
  \<^verbatim>\<open>
  int total_tests =  options.num_lists * ( options.num_lists - 1) / 2;
  int processes_per_node = total_tests / (options.num_procs - 1);
  int extra_processes = total_tests % (options.num_procs - 1);
  \<close>
  The product is an \<^verbatim>\<open>unsigned int\<close> product; for \<^verbatim>\<open>num_lists == 0\<close> it is 0 in the source
  as it is with the subtraction of \<open>nat\<close>.
\<close>

definition total_tests :: "Options \<Rightarrow> nat" where
  "total_tests options = (num_lists options * (num_lists options - 1)) mod 2 ^ 32 div 2"

definition processes_per_node :: "Options \<Rightarrow> nat" where
  "processes_per_node options = total_tests options div (num_procs options - 1)"

definition extra_processes :: "Options \<Rightarrow> nat" where
  "extra_processes options = total_tests options mod (num_procs options - 1)"

text \<open>
  \<^verbatim>\<open>
  for (int i=1; i < options.num_lists + 1; ++i){
    for (int j = i; j < options.num_lists + 1; ++j){
      test_numbers.push_back( i );
      test_numbers.push_back( j );
    }
  }
  \<close>
\<close>

definition test_numbers :: "Options \<Rightarrow> nat list" where
  "test_numbers options =
     concat (map (\<lambda>i. concat (map (\<lambda>j. [i, j]) [i..<num_lists options + 1]))
                 [1..<num_lists options + 1])"

text \<open>
  What the master sends to client \<open>i\<close>:
  \<^verbatim>\<open>
  int send_count = processes_per_node;
  if (i == options.num_procs - 1)
    send_count += extra_processes;
  int offset = processes_per_node * 2 * (i-1);
  send_count *= 2;
  MPI_Send(&send_count, 1, MPI_INT, i, 999, MPI_COMM_WORLD);
  MPI_Send(&test_numbers[offset], send_count, MPI_INT, i, 999, MPI_COMM_WORLD);
  \<close>
\<close>

definition send_buffer :: "Options \<Rightarrow> nat \<Rightarrow> nat list" where
  "send_buffer options i =
     (let send_count =
            processes_per_node options +
            (if i = num_procs options - 1 then extra_processes options else 0);
          offset = processes_per_node options * 2 * (i - 1)
      in take (send_count * 2) (drop offset (test_numbers options)))"

text \<open>
  The pairs a client scores, from the buffer it receives:
  \<^verbatim>\<open>
  for (int i = 0; i < bsize; i+=2){
    int l0 = buffer[i];
    int l1 = buffer[i+1];
  \<close>
  The buffer's size is even, being \<^verbatim>\<open>send_count * 2\<close>.
\<close>

fun client_pairs :: "nat list \<Rightarrow> (nat \<times> nat) list" where
  "client_pairs (l0 # l1 # rest) = (l0, l1) # client_pairs rest"
| "client_pairs rest = []"

text \<open>
  The pairs of each client, for the clients \<^verbatim>\<open>for (int i = 1; i < options.num_procs; ++i)\<close>,
  and the pairs the master enumerated.
\<close>

definition worker_pairs :: "Options \<Rightarrow> (nat \<times> nat) list list" where
  "worker_pairs options =
     map (\<lambda>i. client_pairs (send_buffer options i)) [1..<num_procs options]"

definition enumerated_pairs :: "Options \<Rightarrow> (nat \<times> nat) list" where
  "enumerated_pairs options = client_pairs (test_numbers options)"

text \<open>
  The pair loop of \<^verbatim>\<open>main\<close> without MPI:
  \<^verbatim>\<open>
  for (int i = 0; i < ops.num_lists; ++i ){
    for (int j = i + 1; j < ops.num_lists; ++j ){
      int l0 = i + 1;
      int l1 = j + 1;
  \<close>
\<close>

definition main_pairs :: "Options \<Rightarrow> (nat \<times> nat) list" where
  "main_pairs ops =
     concat (map (\<lambda>i. map (\<lambda>j. (i + 1, j + 1)) [i + 1..<num_lists ops]) [0..<num_lists ops])"

text \<open>
  For comparison, the pairs \<open>(i, j)\<close> with \<open>1 \<le> i \<le> j \<le> L\<close>, self-pairs included, row
  by row. This is not a function of the source.
\<close>

definition all_pairs :: "nat \<Rightarrow> (nat \<times> nat) list" where
  "all_pairs L = concat (map (\<lambda>i. map (\<lambda>j. (i, j)) [i..<L + 1]) [1..<L + 1])"

section \<open>Properties of the weight function\<close>

lemma calculateWeight_nonneg: "0 \<le> calculateWeight idx pv"
  by (simp add: calculateWeight_def Let_def)

text \<open>
  Claim C7. With pivot 0 the weight is 1 at every rank position. With a pivot above 0 and
  \<open>h = pivot - rank_position\<close>, the weight is 1 when \<open>h < 0\<close> and \<open>h * (h + 1) / 2\<close>
  otherwise. The weight is a function of its two arguments alone and is never negative.
\<close>

theorem calculateWeight_spec:
  "calculateWeight rank_position 0 = 1 \<and>
   (0 < pv \<longrightarrow>
      calculateWeight rank_position pv =
        (let h = int pv - int rank_position
         in if h < 0 then 1 else real_of_int h * (real_of_int h + 1) / 2)) \<and>
   0 \<le> calculateWeight rank_position pv"
  by (auto simp add: calculateWeight_def Let_def)

theorem calculateWeight_spec_witness:
  "calculateWeight 2 0 = 1 \<and> calculateWeight 2 5 = 6 \<and> calculateWeight 7 5 = 1 \<and>
   0 \<le> calculateWeight 2 5"
  using calculateWeight_spec [of 2 5] calculateWeight_spec [of 7 5] by simp

lemma calculateWeight_pivot_zero: "0 < p \<Longrightarrow> calculateWeight p p = 0"
  by (simp add: calculateWeight_def)

text \<open>
  Claim C6, at a failing input. With pivot 3 the weights at the rank positions 2, 3 and 4
  are 1, 0 and 1: at the pivot itself \<open>h = 0\<close> is not below 0, the source takes the branch
  \<open>h * (h + 1) / 2\<close>, and the weight is 0 where the claim says 1. For five genes the
  total weight is then \<open>6 + 3 + 1 + 0 + 1 = 11\<close>, while the closed form in the comment of
  \<^verbatim>\<open>scoreLists\<close>, \<^verbatim>\<open>(pivot * (pivot + 1) * (pivot + 2)) / 6.0 + (list length - pivot)\<close>,
  which counts the weight 1 from the pivot on, is 12.
\<close>

theorem calculateWeight_at_pivot:
  "calculateWeight 2 3 = 1 \<and> calculateWeight 3 3 = 0 \<and> calculateWeight 4 3 = 1 \<and>
   total_weight \<lparr>num_genes = 5, num_lists = 2, pivot = 3, two_tailed = False,
                  num_procs = 1, mpi_id = 0\<rparr> [0, 1, 2, 3, 4] = 11 \<and>
   (3 * (3 + 1) * (3 + 2)) / 6 + (5 - 3) = (12::real)"
  by (simp add: calculateWeight_def total_weight_def upt_conv_Cons)

text \<open>
  What holds of the weights around a pivot \<open>p > 0\<close> at every other rank position: the
  weight does not increase from rank position \<open>i\<close> to \<open>i + 1\<close> for all \<open>i < p\<close>, and it
  is 1 at every rank position beyond the pivot.
\<close>

theorem calculateWeight_monotone:
  assumes "0 < p"
  shows "(i < p \<longrightarrow> calculateWeight (i + 1) p \<le> calculateWeight i p) \<and>
         (p < j \<longrightarrow> calculateWeight j p = 1)"
  using assms by (auto simp add: calculateWeight_def Let_def field_simps)

theorem calculateWeight_monotone_witness:
  "(0::nat) < 4 \<and> (2::nat) < 4 \<and> calculateWeight (2 + 1) 4 \<le> calculateWeight 2 4 \<and>
   (4::nat) < 9 \<and> calculateWeight 9 4 = 1"
  using calculateWeight_monotone [of 4 2 9] by simp

section \<open>Properties of the scorer\<close>

subsection \<open>The running maximum and the accesses of a scan\<close>

lemma update_rvalue_ge: "rv \<le> update_rvalue nv rv"
  by (simp add: update_rvalue_def)

lemma trawl_rvalue: "rvalue s \<le> rvalue (snd (trawl tw one_over i pv w k s))"
proof (induction k arbitrary: s)
  case 0
  show ?case by simp
next
  case (Suc k)
  show ?case
  proof (cases "pos_y (history s ! Suc k) > pv")
    case True
    let ?s' = "\<lparr>history = (history s)[Suc k := (history s ! Suc k)\<lparr>hvalue := hvalue (history s ! Suc k) + w\<rparr>],
               rvalue = update_rvalue (nvalue tw one_over i ((history s ! Suc k)\<lparr>hvalue := hvalue (history s ! Suc k) + w\<rparr>)) (rvalue s)\<rparr>"
    have "rvalue s \<le> rvalue ?s'" by (simp add: update_rvalue_ge)
    also have "\<dots> \<le> rvalue (snd (trawl tw one_over i pv w k ?s'))" by (rule Suc.IH)
    finally show ?thesis using True by (simp add: Let_def)
  next
    case False
    then show ?thesis by simp
  qed
qed

lemma step_total:
  assumes "i < length gene_list0" "gene_list0 ! i < length buff" "history s \<noteq> []"
  shows "\<exists>s'. step options gene_list0 buff tw one_over i s = Inr s' \<and>
              history s' \<noteq> [] \<and> rvalue s \<le> rvalue s'"
proof -
  let ?pv = "buff ! (gene_list0 ! i)"
  let ?w = "if calculateWeight i (pivot options) < calculateWeight ?pv (pivot options)
            then calculateWeight i (pivot options) else calculateWeight ?pv (pivot options)"
  let ?lh = "history s ! (length (history s) - 1)"
  show ?thesis
  proof (cases "?pv > pos_y ?lh")
    case True
    with assms show ?thesis
      by (simp add: step_def Let_def update_rvalue_ge)
  next
    case False
    obtain it s' where t: "trawl tw one_over i ?pv ?w (length (history s) - 1) s = (it, s')"
      by (cases "trawl tw one_over i ?pv ?w (length (history s) - 1) s")
    have "rvalue s \<le> rvalue s'"
      using trawl_rvalue [of s tw one_over i ?pv ?w "length (history s) - 1"] t by simp
    moreover have "rvalue s' \<le> update_rvalue nv (rvalue s')" for nv
      by (rule update_rvalue_ge)
    ultimately show ?thesis
      using assms False t by (simp add: step_def Let_def) (meson order_trans)
  qed
qed

lemma step_rvalue:
  "step options gene_list0 buff tw one_over i s = Inr s' \<Longrightarrow> rvalue s \<le> rvalue s'"
  using step_total [of i gene_list0 buff s options tw one_over]
  by (cases "i < length gene_list0 \<and> gene_list0 ! i < length buff \<and> history s \<noteq> []")
     (auto simp add: step_def)

lemma steps_rvalue:
  "steps options gene_list0 buff tw one_over is s = Inr s' \<Longrightarrow> rvalue s \<le> rvalue s'"
proof (induction "is" arbitrary: s)
  case Nil
  then show ?case by simp
next
  case (Cons i rest)
  from Cons.prems obtain s1 where
    s1: "step options gene_list0 buff tw one_over i s = Inr s1"
        "steps options gene_list0 buff tw one_over rest s1 = Inr s'"
    by (auto split: sum.splits)
  have "rvalue s \<le> rvalue s1" using s1(1) by (rule step_rvalue)
  also have "\<dots> \<le> rvalue s'" using s1(2) by (rule Cons.IH)
  finally show ?case .
qed

lemma steps_total:
  assumes "\<forall>i \<in> set is. i < length gene_list0 \<and> gene_list0 ! i < length buff" "history s \<noteq> []"
  shows "\<exists>s'. steps options gene_list0 buff tw one_over is s = Inr s'"
  using assms
proof (induction "is" arbitrary: s)
  case Nil
  then show ?case by simp
next
  case (Cons i rest)
  from Cons.prems obtain s1 where s1: "step options gene_list0 buff tw one_over i s = Inr s1" "history s1 \<noteq> []"
    using step_total [of i gene_list0 buff s options tw one_over] by auto
  with Cons.IH [of s1] Cons.prems show ?case by simp
qed

lemma fill_buff_total:
  assumes "\<forall>i \<in> set is. i < length gene_list1 \<and> gene_list1 ! i < length buff"
  shows "\<exists>b. fill_buff gene_list1 is buff = Inr b \<and> length b = length buff"
  using assms
proof (induction "is" arbitrary: buff)
  case Nil
  show ?case by simp
next
  case (Cons i rest)
  have "\<exists>b. fill_buff gene_list1 rest (buff[gene_list1 ! i := i]) = Inr b \<and>
            length b = length (buff[gene_list1 ! i := i])"
    by (rule Cons.IH) (use Cons.prems in simp)
  with Cons.prems show ?case by simp
qed

lemma scan_upto_total:
  assumes "length gene_list0 = num_genes options" "length gene_list1 = num_genes options"
    and "\<forall>x \<in> set gene_list0. x < num_genes options"
    and "\<forall>x \<in> set gene_list1. x < num_genes options"
    and "0 < num_genes options" "(num_genes options * num_genes options) mod 2 ^ 32 \<noteq> 0"
    and "m \<le> num_genes options"
  shows "\<exists>s. scan_upto options gene_list0 gene_list1 m = Inr s"
proof -
  have "\<forall>i \<in> set [0..<length gene_list0].
          i < length gene_list1 \<and> gene_list1 ! i < length (replicate (length gene_list0) (0::nat))"
    using assms by simp
  then obtain buff where buff: "build_buff gene_list0 gene_list1 = Inr buff"
      "length buff = length gene_list0"
    unfolding build_buff_def using fill_buff_total by fastforce
  have first: "first_line options gene_list0 buff =
      Inr \<lparr>history = [\<lparr>pos_y = buff ! (gene_list0 ! 0),
                         hvalue = calculateWeight 0 (pivot options)\<rparr>], rvalue = 0\<rparr>"
    using assms buff by (simp add: first_line_def Let_def)
  have "\<forall>i \<in> set [1..<m]. i < length gene_list0 \<and> gene_list0 ! i < length buff"
    using assms buff by simp
  then obtain s where
    "steps options gene_list0 buff (total_weight options gene_list0)
       (1 / real ((num_genes options * num_genes options) mod 2 ^ 32)) [1..<m]
       \<lparr>history = [\<lparr>pos_y = buff ! (gene_list0 ! 0),
                      hvalue = calculateWeight 0 (pivot options)\<rparr>], rvalue = 0\<rparr> = Inr s"
    using steps_total by (metis Scan.select_convs(1) list.distinct(1))
  then show ?thesis
    using assms buff first by (simp add: scan_upto_def Let_def)
qed

lemma scan_upto_rvalue:
  assumes "scan_upto options gene_list0 gene_list1 m = Inr s"
  shows "0 \<le> rvalue s"
proof -
  from assms obtain buff tw one_over s0 where
    f: "first_line options gene_list0 buff = Inr s0"
    and st: "steps options gene_list0 buff tw one_over [1..<m] s0 = Inr s"
    by (auto simp add: scan_upto_def Let_def split: sum.splits if_splits)
  from f have "rvalue s0 = 0"
    by (auto simp add: first_line_def Let_def split: if_splits)
  with steps_rvalue [OF st] show ?thesis by simp
qed


lemma foldl_add: "foldl (\<lambda>acc i. acc + f i) a xs = a + sum_list (map f xs)" for a :: real
  by (induction xs arbitrary: a) simp_all

lemma calculateWeight_0_pos: "0 < calculateWeight 0 pv"
  by (simp add: calculateWeight_def Let_def) 

lemma total_weight_pos:
  assumes "gene_list0 \<noteq> []"
  shows "0 < total_weight options gene_list0"
proof -
  have "[0..<length gene_list0] = 0 # [1..<length gene_list0]"
    using assms by (simp add: upt_conv_Cons)
  then have "total_weight options gene_list0 =
      calculateWeight 0 (pivot options) +
      sum_list (map (\<lambda>i. calculateWeight i (pivot options)) [1..<length gene_list0])"
    by (simp add: total_weight_def foldl_add)
  moreover have "0 \<le> sum_list (map (\<lambda>i. calculateWeight i (pivot options)) [1..<length gene_list0])"
    by (rule sum_list_nonneg) (auto simp add: calculateWeight_nonneg)
  ultimately show ?thesis
    using calculateWeight_0_pos [of "pivot options"] by linarith
qed

lemma step_two_tailed:
  "step (options\<lparr>two_tailed := b\<rparr>) gene_list0 buff tw one_over i s =
   step options gene_list0 buff tw one_over i s"
  by (simp add: step_def)

lemma steps_two_tailed:
  "steps (options\<lparr>two_tailed := b\<rparr>) gene_list0 buff tw one_over is s =
   steps options gene_list0 buff tw one_over is s"
  by (induction "is" arbitrary: s) (simp_all add: step_two_tailed cong: sum.case_cong)

lemma scoreLists_two_tailed:
  "scoreLists (options\<lparr>two_tailed := b\<rparr>) gene_list0 gene_list1 =
   scoreLists options gene_list0 gene_list1"
  by (simp add: scoreLists_def scan_upto_def total_weight_def first_line_def steps_two_tailed
        cong: sum.case_cong if_cong)

text \<open>
  Claim C10. Whatever the pivot and the two rank vectors, a score that \<^verbatim>\<open>scoreLists\<close>
  returns is never negative: \<^verbatim>\<open>rvalue\<close> starts at 0 and every update keeps the larger
  value. And \<^verbatim>\<open>scoreLists\<close> does return a score when \<open>num_genes \<ge> 1\<close>, both vectors have
  \<open>num_genes\<close> entries, all below \<open>num_genes\<close>, and the divisor
  \<^verbatim>\<open>num_genes * num_genes\<close> of \<^verbatim>\<open>one_over\<close> has not wrapped around to 0.
\<close>

theorem scoreLists_nonneg:
  "(scoreLists options gene_list0 gene_list1 = Inr r \<longrightarrow> 0 \<le> r) \<and>
   (length gene_list0 = num_genes options \<and> length gene_list1 = num_genes options \<and>
    (\<forall>x \<in> set gene_list0. x < num_genes options) \<and>
    (\<forall>x \<in> set gene_list1. x < num_genes options) \<and>
    1 \<le> num_genes options \<and> (num_genes options * num_genes options) mod 2 ^ 32 \<noteq> 0
    \<longrightarrow> (\<exists>r'. scoreLists options gene_list0 gene_list1 = Inr r' \<and> 0 \<le> r'))"
proof -
  have nonneg: "0 \<le> r'" if "scoreLists options gene_list0 gene_list1 = Inr r'" for r'
  proof -
    from that obtain s where
      s: "scan_upto options gene_list0 gene_list1 (num_genes options) = Inr s"
      and r': "r' = rvalue s * sqrt (real (num_genes options))"
      by (auto simp add: scoreLists_def split: sum.splits)
    from s have "0 \<le> rvalue s" by (rule scan_upto_rvalue)
    with r' show ?thesis by simp
  qed
  have total: "\<exists>r'. scoreLists options gene_list0 gene_list1 = Inr r'"
    if "length gene_list0 = num_genes options" "length gene_list1 = num_genes options"
      "\<forall>x \<in> set gene_list0. x < num_genes options"
      "\<forall>x \<in> set gene_list1. x < num_genes options"
      "1 \<le> num_genes options" "(num_genes options * num_genes options) mod 2 ^ 32 \<noteq> 0"
  proof -
    have "\<exists>s. scan_upto options gene_list0 gene_list1 (num_genes options) = Inr s"
      by (rule scan_upto_total) (use that in simp_all)
    then show ?thesis by (auto simp add: scoreLists_def)
  qed
  show ?thesis using nonneg total by blast
qed

theorem scoreLists_nonneg_witness:
  "scoreLists \<lparr>num_genes = 3, num_lists = 2, pivot = 2, two_tailed = False,
                num_procs = 1, mpi_id = 0\<rparr> [2, 0, 1] [0, 1, 2] = Inr (7 / 9 * sqrt 3) \<and>
   (0::real) \<le> 7 / 9 * sqrt 3"
  using scoreLists_nonneg
    [of "\<lparr>num_genes = 3, num_lists = 2, pivot = 2, two_tailed = False,
          num_procs = 1, mpi_id = 0\<rparr>" "[2, 0, 1]" "[0, 1, 2]" "7 / 9 * sqrt 3"]
  by (simp add: scoreLists_def scan_upto_def total_weight_def build_buff_def first_line_def
        step_def calculateWeight_def nvalue_def update_rvalue_def upt_conv_Cons Let_def)

subsection \<open>Two-tailed scoring\<close>

text \<open>
  Claim C5. With two-tailed scoring enabled, when the forward scoring and the scoring with
  the second vector reversed end-to-end both return a score, the score reported for the
  pair is the larger of the two, so it is never less than the score reported for the same
  pair with two-tailed scoring disabled, which is the forward score. Both scorings return
  a score for all in-range vectors of length \<open>num_genes \<ge> 1\<close>.
\<close>

theorem scorePair_two_tailed:
  "(two_tailed options \<and>
    scoreLists options gene_list0 gene_list1 = Inr score_forward \<and>
    scoreLists options gene_list0 (rev gene_list1) = Inr score_reversed
    \<longrightarrow> scorePair options gene_list0 gene_list1 = Inr (max score_forward score_reversed) \<and>
        scorePair (options\<lparr>two_tailed := False\<rparr>) gene_list0 gene_list1 = Inr score_forward \<and>
        score_forward \<le> max score_forward score_reversed) \<and>
   (length gene_list0 = num_genes options \<and> length gene_list1 = num_genes options \<and>
    (\<forall>x \<in> set gene_list0. x < num_genes options) \<and>
    (\<forall>x \<in> set gene_list1. x < num_genes options) \<and>
    1 \<le> num_genes options \<and> (num_genes options * num_genes options) mod 2 ^ 32 \<noteq> 0
    \<longrightarrow> (\<exists>f t. scoreLists options gene_list0 gene_list1 = Inr f \<and>
               scoreLists options gene_list0 (rev gene_list1) = Inr t))"
proof -
  have fwd: "scorePair (options\<lparr>two_tailed := False\<rparr>) gene_list0 gene_list1 = Inr score_forward"
    if "scoreLists options gene_list0 gene_list1 = Inr score_forward"
    using that by (simp add: scorePair_def scoreLists_two_tailed)
  have two: "scorePair options gene_list0 gene_list1 = Inr (max score_forward score_reversed)"
    if "two_tailed options" "scoreLists options gene_list0 gene_list1 = Inr score_forward"
      "scoreLists options gene_list0 (rev gene_list1) = Inr score_reversed"
    using that by (simp add: scorePair_def max_def)
  have total: "\<exists>f t. scoreLists options gene_list0 gene_list1 = Inr f \<and>
               scoreLists options gene_list0 (rev gene_list1) = Inr t"
    if v: "length gene_list0 = num_genes options" "length gene_list1 = num_genes options"
      "\<forall>x \<in> set gene_list0. x < num_genes options"
      "\<forall>x \<in> set gene_list1. x < num_genes options"
      "1 \<le> num_genes options" "(num_genes options * num_genes options) mod 2 ^ 32 \<noteq> 0"
  proof -
    have "\<exists>s. scan_upto options gene_list0 gene_list1 (num_genes options) = Inr s"
      by (rule scan_upto_total) (use v in simp_all)
    moreover have "\<exists>s. scan_upto options gene_list0 (rev gene_list1) (num_genes options) = Inr s"
      by (rule scan_upto_total) (use v in simp_all)
    ultimately show ?thesis by (auto simp add: scoreLists_def)
  qed
  show ?thesis using fwd two total by simp
qed

theorem scorePair_two_tailed_witness:
  "scoreLists \<lparr>num_genes = 3, num_lists = 2, pivot = 2, two_tailed = True,
                num_procs = 1, mpi_id = 0\<rparr> [2, 0, 1] [2, 1, 0] = Inr (1 / 12 * sqrt 3) \<and>
   scoreLists \<lparr>num_genes = 3, num_lists = 2, pivot = 2, two_tailed = True,
                num_procs = 1, mpi_id = 0\<rparr> [2, 0, 1] (rev [2, 1, 0]) = Inr (7 / 9 * sqrt 3) \<and>
   scorePair \<lparr>num_genes = 3, num_lists = 2, pivot = 2, two_tailed = True,
               num_procs = 1, mpi_id = 0\<rparr> [2, 0, 1] [2, 1, 0] = Inr (7 / 9 * sqrt 3) \<and>
   scorePair \<lparr>num_genes = 3, num_lists = 2, pivot = 2, two_tailed = False,
               num_procs = 1, mpi_id = 0\<rparr> [2, 0, 1] [2, 1, 0] = Inr (1 / 12 * sqrt 3)"
  using scorePair_two_tailed
    [of "\<lparr>num_genes = 3, num_lists = 2, pivot = 2, two_tailed = True,
          num_procs = 1, mpi_id = 0\<rparr>" "[2, 0, 1]" "[2, 1, 0]" "1 / 12 * sqrt 3" "7 / 9 * sqrt 3"]
  by (simp add: scoreLists_def scan_upto_def total_weight_def build_buff_def first_line_def
        step_def calculateWeight_def nvalue_def update_rvalue_def upt_conv_Cons Let_def max_def)

subsection \<open>The scan at three inputs\<close>

text \<open>
  Claim C2, at a failing input. Three genes, pivot 0 (every weight is 1), the rank vectors
  \<open>[1, 2, 0]\<close> and \<open>[0, 1, 2]\<close>, both permutations. When the loop variable reaches 2
  the history holds the positions 1 and 2. The pass \<open>i = 2\<close> has the new position 0,
  below both. The walk adds the weight to the entry at position 2, reaches the first
  entry (\<^verbatim>\<open>it == history.begin()\<close>) and ends there without testing it: the entry at
  position 1 keeps the value 1, and the new entry, with the value \<open>1 + 1\<close>, is inserted
  after it, although its position 1 is above the new position 0.
\<close>

theorem trawl_skips_first_entry:
  "distinct [1, 2, 0::nat] \<and> set [1, 2, 0::nat] = {0, 1, 2} \<and>
   scan_upto \<lparr>num_genes = 3, num_lists = 2, pivot = 0, two_tailed = False,
               num_procs = 1, mpi_id = 0\<rparr> [1, 2, 0] [0, 1, 2] 2 =
     Inr \<lparr>history = [\<lparr>pos_y = 1, hvalue = 1\<rparr>, \<lparr>pos_y = 2, hvalue = 2\<rparr>], rvalue = 0\<rparr> \<and>
   scan_upto \<lparr>num_genes = 3, num_lists = 2, pivot = 0, two_tailed = False,
               num_procs = 1, mpi_id = 0\<rparr> [1, 2, 0] [0, 1, 2] 3 =
     Inr \<lparr>history = [\<lparr>pos_y = 1, hvalue = 1\<rparr>, \<lparr>pos_y = 0, hvalue = 2\<rparr>,
                      \<lparr>pos_y = 2, hvalue = 3\<rparr>], rvalue = 1 / 3\<rparr>"
  by (simp add: scoreLists_def scan_upto_def total_weight_def build_buff_def first_line_def
        step_def calculateWeight_def nvalue_def update_rvalue_def upt_conv_Cons Let_def
        insert_commute)

text \<open>
  Claim C3, at a failing input. Two genes, pivot 0, the rank vectors \<open>[1, 0]\<close> and
  \<open>[0, 1]\<close>, both permutations. After the pass \<open>i = 1\<close> the history holds the positions
  1, 0 in this order: it is not increasing in \<^verbatim>\<open>pos_y\<close>.
\<close>

theorem history_not_increasing:
  "distinct [1, 0::nat] \<and> set [1, 0::nat] = {0, 1} \<and>
   scan_upto \<lparr>num_genes = 2, num_lists = 2, pivot = 0, two_tailed = False,
               num_procs = 1, mpi_id = 0\<rparr> [1, 0] [0, 1] 2 =
     Inr \<lparr>history = [\<lparr>pos_y = 1, hvalue = 1\<rparr>, \<lparr>pos_y = 0, hvalue = 2\<rparr>], rvalue = 1 / 2\<rparr> \<and>
   \<not> sorted_wrt (<) (map pos_y [\<lparr>pos_y = 1, hvalue = 1\<rparr>, \<lparr>pos_y = 0, hvalue = 2\<rparr>])"
  by (simp add: scoreLists_def scan_upto_def total_weight_def build_buff_def first_line_def
        step_def calculateWeight_def nvalue_def update_rvalue_def upt_conv_Cons Let_def
        insert_commute)

text \<open>
  Claim C4, at a failing input. Two genes, pivot 0, both rank vectors \<open>[0, 1]\<close>. The first
  line pushes the entry at position 0 with the value 1 and leaves \<^verbatim>\<open>rvalue\<close> at 0. The
  candidate of that entry at step \<open>i = 0\<close> would be \<open>1 / 2 - 1 * 1 / 4 = 1 / 4\<close>; the score
  returned is 0, so this candidate is not among those \<^verbatim>\<open>rvalue\<close> is the maximum of.
\<close>

theorem first_line_no_candidate:
  "first_line \<lparr>num_genes = 2, num_lists = 2, pivot = 0, two_tailed = False,
                num_procs = 1, mpi_id = 0\<rparr> [0, 1] [0, 1] =
     Inr \<lparr>history = [\<lparr>pos_y = 0, hvalue = 1\<rparr>], rvalue = 0\<rparr> \<and>
   nvalue (total_weight \<lparr>num_genes = 2, num_lists = 2, pivot = 0, two_tailed = False,
                          num_procs = 1, mpi_id = 0\<rparr> [0, 1]) (1 / 4) 0
          \<lparr>pos_y = 0, hvalue = 1\<rparr> = 1 / 4 \<and>
   scoreLists \<lparr>num_genes = 2, num_lists = 2, pivot = 0, two_tailed = False,
                num_procs = 1, mpi_id = 0\<rparr> [0, 1] [0, 1] = Inr 0"
  by (simp add: scoreLists_def scan_upto_def total_weight_def build_buff_def first_line_def
        step_def calculateWeight_def nvalue_def update_rvalue_def upt_conv_Cons Let_def)

subsection \<open>Passes whose new position is above the first entry\<close>

lemma trawl_spec:
  assumes "k < length (history s)"
  shows "fst (trawl tw one_over i pv w k s) \<le> k \<and>
         (fst (trawl tw one_over i pv w k s) = 0 \<or>
          pos_y (history s ! fst (trawl tw one_over i pv w k s)) \<le> pv) \<and>
         (\<forall>m. fst (trawl tw one_over i pv w k s) < m \<and> m \<le> k \<longrightarrow> pv < pos_y (history s ! m)) \<and>
         history (snd (trawl tw one_over i pv w k s)) =
           take (Suc (fst (trawl tw one_over i pv w k s))) (history s) @
           map (\<lambda>e. e\<lparr>hvalue := hvalue e + w\<rparr>)
             (take (k - fst (trawl tw one_over i pv w k s))
                (drop (Suc (fst (trawl tw one_over i pv w k s))) (history s))) @
           drop (Suc k) (history s)"
  using assms
proof (induction k arbitrary: s)
  case 0
  then show ?case by (cases "history s") simp_all
next
  case (Suc k)
  let ?h = "history s"
  show ?case
  proof (cases "pos_y (?h ! Suc k) > pv")
    case False
    then show ?thesis by simp
  next
    case True
    let ?e' = "(?h ! Suc k)\<lparr>hvalue := hvalue (?h ! Suc k) + w\<rparr>"
    let ?s2 = "\<lparr>history = ?h[Suc k := ?e'],
                rvalue = update_rvalue (nvalue tw one_over i ?e') (rvalue s)\<rparr>"
    have eq: "trawl tw one_over i pv w (Suc k) s = trawl tw one_over i pv w k ?s2"
      using True by (simp add: Let_def)
    let ?j = "fst (trawl tw one_over i pv w k ?s2)"
    have k2: "k < length (history ?s2)" using Suc.prems by simp
    note ih = Suc.IH [OF k2]
    from ih have j: "?j \<le> k" by blast
    from ih have stop: "?j = 0 \<or> pos_y (history ?s2 ! ?j) \<le> pv" by blast
    from ih have above: "\<forall>m. ?j < m \<and> m \<le> k \<longrightarrow> pv < pos_y (history ?s2 ! m)" by blast
    from ih have hist: "history (snd (trawl tw one_over i pv w k ?s2)) =
           take (Suc ?j) (history ?s2) @
           map (\<lambda>e. e\<lparr>hvalue := hvalue e + w\<rparr>) (take (k - ?j) (drop (Suc ?j) (history ?s2))) @
           drop (Suc k) (history ?s2)" by blast
    have 1: "?j \<le> Suc k" using j by simp
    have 2: "?j = 0 \<or> pos_y (?h ! ?j) \<le> pv"
      using stop j by auto
    have 3: "\<forall>m. ?j < m \<and> m \<le> Suc k \<longrightarrow> pv < pos_y (?h ! m)"
    proof (intro allI impI)
      fix m assume m: "?j < m \<and> m \<le> Suc k"
      show "pv < pos_y (?h ! m)"
      proof (cases "m = Suc k")
        case True
        with \<open>pos_y (?h ! Suc k) > pv\<close> show ?thesis by simp
      next
        case False
        with m have "?j < m \<and> m \<le> k" by simp
        with above have "pv < pos_y (history ?s2 ! m)" by blast
        with False show ?thesis by simp
      qed
    qed
    have t1: "take (Suc ?j) (history ?s2) = take (Suc ?j) ?h"
      using j by simp
    have t2: "take (k - ?j) (drop (Suc ?j) (history ?s2)) = take (k - ?j) (drop (Suc ?j) ?h)"
      using j by (simp add: drop_update_swap)
    have t3: "drop (Suc k) (history ?s2) = ?e' # drop (Suc (Suc k)) ?h"
    proof -
      have "drop (Suc k) (?h[Suc k := ?e']) =
            (?h[Suc k := ?e']) ! Suc k # drop (Suc (Suc k)) (?h[Suc k := ?e'])"
        by (rule Cons_nth_drop_Suc [symmetric]) (use Suc.prems in simp)
      then show ?thesis using Suc.prems by simp
    qed
    have t4: "take (Suc k - ?j) (drop (Suc ?j) ?h) = take (k - ?j) (drop (Suc ?j) ?h) @ [?h ! Suc k]"
    proof -
      have "Suc k - ?j = Suc (k - ?j)" using j by simp
      moreover have "k - ?j < length (drop (Suc ?j) ?h)" using j Suc.prems by simp
      moreover have "drop (Suc ?j) ?h ! (k - ?j) = ?h ! Suc k" using j Suc.prems by simp
      ultimately show ?thesis by (simp add: take_Suc_conv_app_nth)
    qed
    have 4: "history (snd (trawl tw one_over i pv w k ?s2)) =
           take (Suc ?j) ?h @
           map (\<lambda>e. e\<lparr>hvalue := hvalue e + w\<rparr>) (take (Suc k - ?j) (drop (Suc ?j) ?h)) @
           drop (Suc (Suc k)) ?h"
      unfolding hist t1 t2 t3 t4 by simp
    show ?thesis unfolding eq using 1 2 3 4 by blast
  qed
qed


lemma filter_split_at:
  fixes h :: "History list"
  assumes "n \<le> length h" "\<forall>m<n. pos_y (h ! m) < pv"
    and "\<forall>m. n \<le> m \<and> m < length h \<longrightarrow> pv < pos_y (h ! m)"
  shows "filter (\<lambda>e. pos_y e < pv) h = take n h \<and> filter (\<lambda>e. pv < pos_y e) h = drop n h"
proof -
  have lo: "\<forall>e \<in> set (take n h). pos_y e < pv"
  proof
    fix e assume "e \<in> set (take n h)"
    then obtain m where "m < length (take n h)" "take n h ! m = e"
      by (auto simp add: in_set_conv_nth)
    with assms(1,2) show "pos_y e < pv" by auto
  qed
  have hi: "\<forall>e \<in> set (drop n h). pv < pos_y e"
  proof
    fix e assume "e \<in> set (drop n h)"
    then obtain m where m: "m < length (drop n h)" "drop n h ! m = e"
      by (auto simp add: in_set_conv_nth)
    then have "n + m < length h" "h ! (n + m) = e" using assms(1) by auto
    with assms(3) show "pv < pos_y e" by auto
  qed
  have split: "filter P h = filter P (take n h) @ filter P (drop n h)" for P :: "History \<Rightarrow> bool"
    by (metis append_take_drop_id filter_append)
  have "filter (\<lambda>e. pos_y e < pv) (take n h) = take n h"
    using lo by (simp add: filter_id_conv)
  moreover have "filter (\<lambda>e. pos_y e < pv) (drop n h) = []"
    using hi by (auto simp add: filter_empty_conv)
  moreover have "filter (\<lambda>e. pv < pos_y e) (take n h) = []"
    using lo by (auto simp add: filter_empty_conv)
  moreover have "filter (\<lambda>e. pv < pos_y e) (drop n h) = drop n h"
    using hi by (simp add: filter_id_conv)
  ultimately show ?thesis by (simp add: split)
qed

lemma sorted_insert_at:
  fixes h :: "History list"
  assumes "sorted_wrt (<) (map pos_y h)"
    and "\<forall>e \<in> set (take n h). pos_y e < pv" "\<forall>e \<in> set (drop n h). pv < pos_y e"
  shows "sorted_wrt (<) (map pos_y (take n h @ \<lparr>pos_y = pv, hvalue = v\<rparr> #
                                     map (\<lambda>e. e\<lparr>hvalue := hvalue e + w\<rparr>) (drop n h)))"
proof -
  have "sorted_wrt (<) (map pos_y (take n h))" "sorted_wrt (<) (map pos_y (drop n h))"
    using assms(1) by (simp_all add: sorted_wrt_take sorted_wrt_drop flip: take_map drop_map)
  moreover have "map pos_y (map (\<lambda>e. e\<lparr>hvalue := hvalue e + w\<rparr>) (drop n h)) = map pos_y (drop n h)"
    by simp
  moreover have "\<forall>x \<in> set (take n h). \<forall>y \<in> set (drop n h). pos_y x < pos_y y"
    using assms(2,3) by (meson less_trans)
  ultimately have "sorted_wrt (<) (map pos_y (take n h) @ pv #
      map pos_y (map (\<lambda>e. e\<lparr>hvalue := hvalue e + w\<rparr>) (drop n h)))"
    using assms(2,3) by (simp add: sorted_wrt_append comp_def)
  then show ?thesis by simp
qed


lemma update_rvalue_max: "update_rvalue nv rv = max rv nv"
  by (simp add: update_rvalue_def max_def)

lemma Max_insert_max:
  fixes S :: "real set"
  assumes "finite S"
  shows "Max (insert (max a b) S) = Max (insert a (insert b S))"
proof (cases "S = {}")
  case True
  then show ?thesis by (simp add: max.commute)
next
  case False
  with assms show ?thesis by (simp add: max.assoc)
qed

lemma fold_update_rvalue:
  "fold (\<lambda>e r. update_rvalue (g e) r) xs a = Max (insert a (g ` set xs))"
proof (induction xs arbitrary: a)
  case Nil
  show ?case by simp
next
  case (Cons x xs)
  have "fold (\<lambda>e r. update_rvalue (g e) r) (x # xs) a =
        fold (\<lambda>e r. update_rvalue (g e) r) xs (update_rvalue (g x) a)"
    by simp
  also have "\<dots> = Max (insert (update_rvalue (g x) a) (g ` set xs))"
    by (rule Cons.IH)
  also have "\<dots> = Max (insert (max a (g x)) (g ` set xs))"
    by (simp only: update_rvalue_max)
  also have "\<dots> = Max (insert a (insert (g x) (g ` set xs)))"
    by (rule Max_insert_max) simp
  finally show ?case by simp
qed

lemma trawl_rvalue_fold:
  assumes "k < length (history s)"
  shows "rvalue (snd (trawl tw one_over i pv w k s)) =
         fold (\<lambda>e r. update_rvalue (nvalue tw one_over i e) r)
           (rev (map (\<lambda>e. e\<lparr>hvalue := hvalue e + w\<rparr>)
              (take (k - fst (trawl tw one_over i pv w k s))
                 (drop (Suc (fst (trawl tw one_over i pv w k s))) (history s)))))
           (rvalue s)"
  using assms
proof (induction k arbitrary: s)
  case 0
  then show ?case by simp
next
  case (Suc k)
  let ?h = "history s"
  show ?case
  proof (cases "pos_y (?h ! Suc k) > pv")
    case False
    then show ?thesis by simp
  next
    case True
    let ?e' = "(?h ! Suc k)\<lparr>hvalue := hvalue (?h ! Suc k) + w\<rparr>"
    let ?s2 = "\<lparr>history = ?h[Suc k := ?e'],
                rvalue = update_rvalue (nvalue tw one_over i ?e') (rvalue s)\<rparr>"
    have eq: "trawl tw one_over i pv w (Suc k) s = trawl tw one_over i pv w k ?s2"
      using True by (simp add: Let_def)
    let ?j = "fst (trawl tw one_over i pv w k ?s2)"
    have k2: "k < length (history ?s2)" using Suc.prems by simp
    have j: "?j \<le> k" using trawl_spec [OF k2] by blast
    have t2: "take (k - ?j) (drop (Suc ?j) (history ?s2)) = take (k - ?j) (drop (Suc ?j) ?h)"
      using j by (simp add: drop_update_swap)
    have t4: "take (Suc k - ?j) (drop (Suc ?j) ?h) = take (k - ?j) (drop (Suc ?j) ?h) @ [?h ! Suc k]"
    proof -
      have "Suc k - ?j = Suc (k - ?j)" using j by simp
      moreover have "k - ?j < length (drop (Suc ?j) ?h)" using j Suc.prems by simp
      moreover have "drop (Suc ?j) ?h ! (k - ?j) = ?h ! Suc k" using j Suc.prems by simp
      ultimately show ?thesis by (simp add: take_Suc_conv_app_nth)
    qed
    show ?thesis
      unfolding eq Suc.IH [OF k2] t2 t4 by simp
  qed
qed

lemma trawl_rvalue_Max:
  assumes "k < length (history s)"
  shows "rvalue (snd (trawl tw one_over i pv w k s)) =
         Max (insert (rvalue s)
           (nvalue tw one_over i ` set (map (\<lambda>e. e\<lparr>hvalue := hvalue e + w\<rparr>)
              (take (k - fst (trawl tw one_over i pv w k s))
                 (drop (Suc (fst (trawl tw one_over i pv w k s))) (history s))))))"
  unfolding trawl_rvalue_fold [OF assms] fold_update_rvalue by simp

lemma update_rvalue_Max:
  fixes S :: "real set"
  assumes "finite S"
  shows "update_rvalue a (Max (insert b S)) = Max (insert b (insert a S))"
proof -
  have "Max (insert a (insert b S)) = max a (Max (insert b S))"
    using assms by simp
  then show ?thesis
    by (simp add: update_rvalue_max max.commute insert_commute)
qed

lemma step_append:
  assumes "i < length gene_list0" "gene_list0 ! i < length buff" "history s \<noteq> []"
    and "pos_y (history s ! (length (history s) - 1)) < buff ! (gene_list0 ! i)"
  shows "step options gene_list0 buff tw one_over i s =
     Inr \<lparr>history = history s @
            [\<lparr>pos_y = buff ! (gene_list0 ! i),
              hvalue = hvalue (history s ! (length (history s) - 1)) +
                (if calculateWeight i (pivot options)
                    < calculateWeight (buff ! (gene_list0 ! i)) (pivot options)
                 then calculateWeight i (pivot options)
                 else calculateWeight (buff ! (gene_list0 ! i)) (pivot options))\<rparr>],
          rvalue = update_rvalue (nvalue tw one_over i
            \<lparr>pos_y = buff ! (gene_list0 ! i),
              hvalue = hvalue (history s ! (length (history s) - 1)) +
                (if calculateWeight i (pivot options)
                    < calculateWeight (buff ! (gene_list0 ! i)) (pivot options)
                 then calculateWeight i (pivot options)
                 else calculateWeight (buff ! (gene_list0 ! i)) (pivot options))\<rparr>)
            (rvalue s)\<rparr>"
  using assms by (simp add: step_def Let_def)

lemma step_insert:
  assumes "i < length gene_list0" "gene_list0 ! i < length buff" "history s \<noteq> []"
    and "\<not> pos_y (history s ! (length (history s) - 1)) < buff ! (gene_list0 ! i)"
    and "trawl tw one_over i (buff ! (gene_list0 ! i))
           (if calculateWeight i (pivot options)
               < calculateWeight (buff ! (gene_list0 ! i)) (pivot options)
            then calculateWeight i (pivot options)
            else calculateWeight (buff ! (gene_list0 ! i)) (pivot options))
           (length (history s) - 1) s = (j, t)"
  shows "step options gene_list0 buff tw one_over i s =
     Inr \<lparr>history = take (j + 1) (history t) @
            \<lparr>pos_y = buff ! (gene_list0 ! i),
              hvalue = hvalue (history t ! j) +
                (if calculateWeight i (pivot options)
                    < calculateWeight (buff ! (gene_list0 ! i)) (pivot options)
                 then calculateWeight i (pivot options)
                 else calculateWeight (buff ! (gene_list0 ! i)) (pivot options))\<rparr> #
            drop (j + 1) (history t),
          rvalue = update_rvalue (nvalue tw one_over i
            \<lparr>pos_y = buff ! (gene_list0 ! i),
              hvalue = hvalue (history t ! j) +
                (if calculateWeight i (pivot options)
                    < calculateWeight (buff ! (gene_list0 ! i)) (pivot options)
                 then calculateWeight i (pivot options)
                 else calculateWeight (buff ! (gene_list0 ! i)) (pivot options))\<rparr>)
            (rvalue t)\<rparr>"
  using assms by (simp add: step_def Let_def)

lemma step_ordered:
  assumes acc: "i < length gene_list0" "gene_list0 ! i < length buff"
    and ne: "history s \<noteq> []"
    and sorted: "sorted_wrt (<) (map pos_y (history s))"
    and first: "pos_y (hd (history s)) < buff ! (gene_list0 ! i)"
    and fresh: "buff ! (gene_list0 ! i) \<notin> set (map pos_y (history s))"
  shows "\<exists>s'. step options gene_list0 buff tw one_over i s = Inr s' \<and>
           (let pv = buff ! (gene_list0 ! i);
                w = min (calculateWeight i (pivot options)) (calculateWeight pv (pivot options));
                below = filter (\<lambda>e. pos_y e < pv) (history s);
                nh = \<lparr>pos_y = pv, hvalue = hvalue (last below) + w\<rparr>;
                above = map (\<lambda>e. e\<lparr>hvalue := hvalue e + w\<rparr>)
                          (filter (\<lambda>e. pv < pos_y e) (history s))
            in history s' = below @ nh # above \<and>
               rvalue s' = Max (insert (rvalue s) (nvalue tw one_over i ` set (nh # above)))) \<and>
           sorted_wrt (<) (map pos_y (history s'))"
proof -
  define h where "h = history s"
  define pv where "pv = buff ! (gene_list0 ! i)"
  define w where "w = (if calculateWeight i (pivot options) < calculateWeight pv (pivot options)
                       then calculateWeight i (pivot options)
                       else calculateWeight pv (pivot options))"
  define k where "k = length h - 1"
  have w_min: "w = min (calculateWeight i (pivot options)) (calculateWeight pv (pivot options))"
    by (simp add: w_def min_def)
  have k: "k < length h" "Suc k = length h" using ne by (simp_all add: k_def h_def)
  have srt: "pos_y (h ! a) < pos_y (h ! b)" if "a < b" "b < length h" for a b
    using sorted_wrt_nth_less [OF sorted, of a b] that by (simp add: h_def)
  have "\<exists>n \<le> length h.
      (\<exists>s'. step options gene_list0 buff tw one_over i s = Inr s' \<and>
         history s' = take n h @ \<lparr>pos_y = pv, hvalue = hvalue (last (take n h)) + w\<rparr> #
                      map (\<lambda>e. e\<lparr>hvalue := hvalue e + w\<rparr>) (drop n h) \<and>
         rvalue s' = Max (insert (rvalue s) (nvalue tw one_over i `
                      set (\<lparr>pos_y = pv, hvalue = hvalue (last (take n h)) + w\<rparr> #
                           map (\<lambda>e. e\<lparr>hvalue := hvalue e + w\<rparr>) (drop n h))))) \<and>
      (\<forall>m<n. pos_y (h ! m) < pv) \<and>
      (\<forall>m. n \<le> m \<and> m < length h \<longrightarrow> pv < pos_y (h ! m))"
  proof (cases "pos_y (h ! k) < pv")
    case True
    have "last h = h ! k" using ne by (simp add: last_conv_nth k_def h_def)
    moreover from step_append [OF acc ne, where options = options and tw = tw
        and one_over = one_over] True
    have "step options gene_list0 buff tw one_over i s =
        Inr \<lparr>history = h @ [\<lparr>pos_y = pv, hvalue = hvalue (h ! k) + w\<rparr>],
             rvalue = update_rvalue (nvalue tw one_over i
                        \<lparr>pos_y = pv, hvalue = hvalue (h ! k) + w\<rparr>) (rvalue s)\<rparr>"
      unfolding h_def pv_def w_def k_def by blast
    moreover have "update_rvalue a (rvalue s) = Max (insert (rvalue s) {a})" for a
      using update_rvalue_Max [of "{}" a "rvalue s"] by simp
    ultimately have "\<exists>s'. step options gene_list0 buff tw one_over i s = Inr s' \<and>
      history s' = take (length h) h @
                   \<lparr>pos_y = pv, hvalue = hvalue (last (take (length h) h)) + w\<rparr> #
                   map (\<lambda>e. e\<lparr>hvalue := hvalue e + w\<rparr>) (drop (length h) h) \<and>
      rvalue s' = Max (insert (rvalue s) (nvalue tw one_over i `
                   set (\<lparr>pos_y = pv, hvalue = hvalue (last (take (length h) h)) + w\<rparr> #
                        map (\<lambda>e. e\<lparr>hvalue := hvalue e + w\<rparr>) (drop (length h) h))))"
      by simp
    moreover have "\<forall>m<length h. pos_y (h ! m) < pv"
    proof (intro allI impI)
      fix m assume "m < length h"
      then have "m = k \<or> m < k" using k by auto
      then show "pos_y (h ! m) < pv"
        using True srt [of m k] k by auto
    qed
    ultimately show ?thesis by auto
  next
    case False
    define j where "j = fst (trawl tw one_over i pv w k s)"
    define s1 where "s1 = snd (trawl tw one_over i pv w k s)"
    have tr: "trawl tw one_over i pv w k s = (j, s1)" by (simp add: j_def s1_def)
    from trawl_spec [of k s tw one_over i pv w] k
    have j: "j \<le> k"
      and stop: "j = 0 \<or> pos_y (h ! j) \<le> pv"
      and above: "\<forall>m. j < m \<and> m \<le> k \<longrightarrow> pv < pos_y (h ! m)"
      and hist: "history s1 = take (Suc j) h @
           map (\<lambda>e. e\<lparr>hvalue := hvalue e + w\<rparr>) (take (k - j) (drop (Suc j) h)) @
           drop (Suc k) h"
      unfolding j_def s1_def h_def by blast+
    have full: "take (k - j) (drop (Suc j) h) = drop (Suc j) h" using k j by simp
    with hist k have hist': "history s1 = take (Suc j) h @
           map (\<lambda>e. e\<lparr>hvalue := hvalue e + w\<rparr>) (drop (Suc j) h)"
      by simp
    from trawl_rvalue_Max [of k s tw one_over i pv w] k full
    have rv1: "rvalue s1 = Max (insert (rvalue s)
        (nvalue tw one_over i ` set (map (\<lambda>e. e\<lparr>hvalue := hvalue e + w\<rparr>) (drop (Suc j) h))))"
      unfolding j_def s1_def h_def by simp
    have len: "length (take (Suc j) h) = Suc j" using j k by simp
    have t: "take (Suc j) (history s1) = take (Suc j) h"
      unfolding hist' using len by simp
    have d: "drop (Suc j) (history s1) = map (\<lambda>e. e\<lparr>hvalue := hvalue e + w\<rparr>) (drop (Suc j) h)"
      unfolding hist' using len by simp
    have nthj: "history s1 ! j = h ! j"
      unfolding hist' using len j k by (simp add: nth_append)
    have lastj: "last (take (Suc j) h) = h ! j"
    proof -
      have "j < length h" using j k by simp
      then show ?thesis by (simp add: take_Suc_conv_app_nth)
    qed
    from step_insert [OF acc ne, where options = options and tw = tw and one_over = one_over
        and j = j and t = s1] False tr
    have "step options gene_list0 buff tw one_over i s =
        Inr \<lparr>history = take (j + 1) (history s1) @
               \<lparr>pos_y = pv, hvalue = hvalue (history s1 ! j) + w\<rparr> #
               drop (j + 1) (history s1),
             rvalue = update_rvalue (nvalue tw one_over i
                        \<lparr>pos_y = pv, hvalue = hvalue (history s1 ! j) + w\<rparr>) (rvalue s1)\<rparr>"
      unfolding h_def pv_def w_def k_def by blast
    moreover have "update_rvalue a (rvalue s1) = Max (insert (rvalue s)
        (insert a (nvalue tw one_over i ` set (map (\<lambda>e. e\<lparr>hvalue := hvalue e + w\<rparr>) (drop (Suc j) h)))))" for a
      unfolding rv1 by (rule update_rvalue_Max) simp
    ultimately have "\<exists>s'. step options gene_list0 buff tw one_over i s = Inr s' \<and>
      history s' = take (Suc j) h @
                   \<lparr>pos_y = pv, hvalue = hvalue (last (take (Suc j) h)) + w\<rparr> #
                   map (\<lambda>e. e\<lparr>hvalue := hvalue e + w\<rparr>) (drop (Suc j) h) \<and>
      rvalue s' = Max (insert (rvalue s) (nvalue tw one_over i `
                   set (\<lparr>pos_y = pv, hvalue = hvalue (last (take (Suc j) h)) + w\<rparr> #
                        map (\<lambda>e. e\<lparr>hvalue := hvalue e + w\<rparr>) (drop (Suc j) h))))"
      by (simp add: t d nthj lastj)
    moreover have "\<forall>m<Suc j. pos_y (h ! m) < pv"
    proof (intro allI impI)
      have "pos_y (h ! j) \<in> set (map pos_y h)" using j k by simp
      with fresh have "pos_y (h ! j) \<noteq> pv" by (auto simp add: h_def pv_def)
      moreover have "pos_y (h ! 0) < pv"
        using first ne by (simp add: hd_conv_nth h_def pv_def)
      ultimately have hj: "pos_y (h ! j) < pv" using stop by (cases "j = 0") auto
      fix m assume "m < Suc j"
      then have "m = j \<or> m < j" by auto
      then show "pos_y (h ! m) < pv"
        using hj srt [of m j] j k by auto
    qed
    moreover have "\<forall>m. Suc j \<le> m \<and> m < length h \<longrightarrow> pv < pos_y (h ! m)"
      using above k by auto
    moreover have "Suc j \<le> length h" using j k by simp
    ultimately show ?thesis by blast
  qed
  then obtain n s' where n: "n \<le> length h"
    and r: "step options gene_list0 buff tw one_over i s = Inr s'"
      "history s' = take n h @ \<lparr>pos_y = pv, hvalue = hvalue (last (take n h)) + w\<rparr> #
                      map (\<lambda>e. e\<lparr>hvalue := hvalue e + w\<rparr>) (drop n h)"
      "rvalue s' = Max (insert (rvalue s) (nvalue tw one_over i `
                      set (\<lparr>pos_y = pv, hvalue = hvalue (last (take n h)) + w\<rparr> #
                           map (\<lambda>e. e\<lparr>hvalue := hvalue e + w\<rparr>) (drop n h))))"
    and lo: "\<forall>m<n. pos_y (h ! m) < pv"
    and hi: "\<forall>m. n \<le> m \<and> m < length h \<longrightarrow> pv < pos_y (h ! m)"
    by blast
  from filter_split_at [OF n lo hi]
  have f: "filter (\<lambda>e. pos_y e < pv) h = take n h" "filter (\<lambda>e. pv < pos_y e) h = drop n h"
    by simp_all
  have "set (take n h) = set (filter (\<lambda>e. pos_y e < pv) h)"
    using f(1) by simp
  then have lo': "\<forall>e \<in> set (take n h). pos_y e < pv"
    by simp
  have "set (drop n h) = set (filter (\<lambda>e. pv < pos_y e) h)"
    using f(2) by simp
  then have hi': "\<forall>e \<in> set (drop n h). pv < pos_y e"
    by simp
  have "sorted_wrt (<) (map pos_y (take n h @
          \<lparr>pos_y = pv, hvalue = hvalue (last (take n h)) + w\<rparr> #
          map (\<lambda>e. e\<lparr>hvalue := hvalue e + w\<rparr>) (drop n h)))"
    by (rule sorted_insert_at) (use sorted lo' hi' in \<open>simp_all add: h_def\<close>)
  with r f show ?thesis
    unfolding Let_def h_def [symmetric] pv_def [symmetric] w_min [symmetric] by auto
qed

text \<open>
  A pass of the loop on a history that is strictly increasing in \<^verbatim>\<open>pos_y\<close>, when the new
  position is not in the history and is above the position of its first entry: the
  entries below the new position are kept, the new entry follows them with the value of
  the last of them plus the weight, the entries above the new position follow with the
  weight added to each, and the history is strictly increasing again. The weight is the
  smaller of the weights of the two positions. The new \<^verbatim>\<open>rvalue\<close> is the largest of the old
  one and the candidates of the new entry and of the entries the weight was added to.
\<close>

theorem step_in_order:
  assumes acc: "i < length gene_list0" "gene_list0 ! i < length buff"
    and ne: "history s \<noteq> []"
    and sorted: "sorted_wrt (<) (map pos_y (history s))"
    and first: "pos_y (hd (history s)) < buff ! (gene_list0 ! i)"
    and fresh: "buff ! (gene_list0 ! i) \<notin> set (map pos_y (history s))"
  shows "\<exists>s'. step options gene_list0 buff tw one_over i s = Inr s' \<and>
           (let pv = buff ! (gene_list0 ! i);
                w = min (calculateWeight i (pivot options)) (calculateWeight pv (pivot options));
                below = filter (\<lambda>e. pos_y e < pv) (history s);
                nh = \<lparr>pos_y = pv, hvalue = hvalue (last below) + w\<rparr>;
                above = map (\<lambda>e. e\<lparr>hvalue := hvalue e + w\<rparr>)
                          (filter (\<lambda>e. pv < pos_y e) (history s))
            in history s' = below @ nh # above \<and>
               rvalue s' = Max (insert (rvalue s) (nvalue tw one_over i ` set (nh # above)))) \<and>
           sorted_wrt (<) (map pos_y (history s'))"
  using assms by (rule step_ordered)

theorem step_in_order_witness:
  "step \<lparr>num_genes = 3, num_lists = 2, pivot = 0, two_tailed = False,
          num_procs = 1, mpi_id = 0\<rparr> [0, 2, 1] [0, 1, 2] 3 (1 / 9) 2
        \<lparr>history = [\<lparr>pos_y = 0, hvalue = 1\<rparr>, \<lparr>pos_y = 2, hvalue = 2\<rparr>], rvalue = 0\<rparr> =
     Inr \<lparr>history = [\<lparr>pos_y = 0, hvalue = 1\<rparr>, \<lparr>pos_y = 1, hvalue = 2\<rparr>,
                      \<lparr>pos_y = 2, hvalue = 3\<rparr>], rvalue = 0\<rparr> \<and>
   sorted_wrt (<) (map pos_y [\<lparr>pos_y = 0, hvalue = 1\<rparr>, \<lparr>pos_y = 1, hvalue = 2\<rparr>,
                              \<lparr>pos_y = 2, hvalue = 3\<rparr>])"
  using step_in_order
    [of 2 "[0, 2, 1]" "[0, 1, 2]"
        "\<lparr>history = [\<lparr>pos_y = 0, hvalue = 1\<rparr>, \<lparr>pos_y = 2, hvalue = 2\<rparr>], rvalue = 0\<rparr>"
        "\<lparr>num_genes = 3, num_lists = 2, pivot = 0, two_tailed = False,
          num_procs = 1, mpi_id = 0\<rparr>" 3 "1 / 9"]
  by (simp add: step_def calculateWeight_def nvalue_def update_rvalue_def Let_def)

subsection \<open>Scans whose first position is the lowest\<close>

lemma fill_buff_other:
  "fill_buff gene_list1 is buff = Inr b \<Longrightarrow> x \<notin> (!) gene_list1 ` set is \<Longrightarrow> b ! x = buff ! x"
proof (induction "is" arbitrary: buff)
  case Nil
  then show ?case by simp
next
  case (Cons i rest)
  from Cons.prems(1) have r: "fill_buff gene_list1 rest (buff[gene_list1 ! i := i]) = Inr b"
    by (simp split: if_splits)
  from Cons.prems(2) have "x \<notin> (!) gene_list1 ` set rest" "x \<noteq> gene_list1 ! i" by auto
  with Cons.IH [OF r] show ?case by simp
qed

lemma fill_buff_inverse:
  "fill_buff gene_list1 is buff = Inr b \<Longrightarrow> distinct (map ((!) gene_list1) is) \<Longrightarrow>
   \<forall>i \<in> set is. b ! (gene_list1 ! i) = i"
proof (induction "is" arbitrary: buff)
  case Nil
  then show ?case by simp
next
  case (Cons i rest)
  from Cons.prems(1) have r: "fill_buff gene_list1 rest (buff[gene_list1 ! i := i]) = Inr b"
    and lt: "gene_list1 ! i < length buff"
    by (simp_all split: if_splits)
  from Cons.prems(2) have d: "distinct (map ((!) gene_list1) rest)"
    and n: "gene_list1 ! i \<notin> (!) gene_list1 ` set rest" by simp_all
  from fill_buff_other [OF r n] lt have "b ! (gene_list1 ! i) = i" by simp
  with Cons.IH [OF r d] show ?case by simp
qed

lemma build_buff_inverse:
  assumes "build_buff gene_list0 gene_list1 = Inr buff" "distinct gene_list1"
    and "length gene_list1 = length gene_list0"
  shows "\<forall>i < length gene_list1. buff ! (gene_list1 ! i) = i"
proof -
  have "map ((!) gene_list1) [0..<length gene_list0] = gene_list1"
    using assms(3) by (metis map_nth)
  with assms(2) have "distinct (map ((!) gene_list1) [0..<length gene_list0])" by simp
  from fill_buff_inverse [OF assms(1) [unfolded build_buff_def] this] assms(3)
  show ?thesis by simp
qed

lemma steps_append:
  "steps options gene_list0 buff tw one_over (xs @ ys) s =
     (case steps options gene_list0 buff tw one_over xs s of
        Inl e \<Rightarrow> Inl e
      | Inr s' \<Rightarrow> steps options gene_list0 buff tw one_over ys s')"
  by (induction xs arbitrary: s) (simp_all split: sum.splits)

lemma steps_in_order:
  assumes m: "1 \<le> m" "m \<le> length gene_list0"
    and acc: "\<forall>k<m. gene_list0 ! k < length buff"
    and inj: "inj_on (\<lambda>k. buff ! (gene_list0 ! k)) {0..<m}"
    and low: "\<forall>k. 1 \<le> k \<and> k < m \<longrightarrow> buff ! (gene_list0 ! 0) < buff ! (gene_list0 ! k)"
  shows "\<exists>s. steps options gene_list0 buff tw one_over [1..<m]
                \<lparr>history = [\<lparr>pos_y = buff ! (gene_list0 ! 0), hvalue = v\<rparr>], rvalue = 0\<rparr> = Inr s \<and>
             history s \<noteq> [] \<and> sorted_wrt (<) (map pos_y (history s)) \<and>
             pos_y (hd (history s)) = buff ! (gene_list0 ! 0) \<and>
             set (map pos_y (history s)) = (\<lambda>k. buff ! (gene_list0 ! k)) ` {0..<m}"
  using assms
proof (induction m)
  case 0
  then show ?case by simp
next
  case (Suc m)
  show ?case
  proof (cases "m = 0")
    case True
    then show ?thesis by simp
  next
    case False
    let ?pos = "\<lambda>k. buff ! (gene_list0 ! k)"
    let ?s0 = "\<lparr>history = [\<lparr>pos_y = ?pos 0, hvalue = v\<rparr>], rvalue = 0\<rparr>"
    have "inj_on ?pos {0..<m}"
      by (rule inj_on_subset [OF Suc.prems(4)]) simp
    with Suc.IH False Suc.prems obtain s where
      s: "steps options gene_list0 buff tw one_over [1..<m] ?s0 = Inr s"
      and ne: "history s \<noteq> []"
      and srt: "sorted_wrt (<) (map pos_y (history s))"
      and hd: "pos_y (hd (history s)) = ?pos 0"
      and set: "set (map pos_y (history s)) = ?pos ` {0..<m}"
      by auto
    have first: "pos_y (hd (history s)) < ?pos m"
      using hd Suc.prems(5) False by simp
    have fresh: "?pos m \<notin> set (map pos_y (history s))"
    proof
      assume "?pos m \<in> set (map pos_y (history s))"
      then obtain k where "k < m" "?pos k = ?pos m" unfolding set by auto
      with inj_onD [OF Suc.prems(4), of k m] show False by simp
    qed
    have a1: "m < length gene_list0" "gene_list0 ! m < length buff"
      using Suc.prems by simp_all
    from step_ordered [OF a1 ne srt first fresh, of options tw one_over]
    obtain s' where s': "step options gene_list0 buff tw one_over m s = Inr s'"
      and h': "history s' =
        (let pv = ?pos m;
             w = min (calculateWeight m (pivot options)) (calculateWeight pv (pivot options));
             below = filter (\<lambda>e. pos_y e < pv) (history s)
         in below @ \<lparr>pos_y = pv, hvalue = hvalue (last below) + w\<rparr> #
            map (\<lambda>e. e\<lparr>hvalue := hvalue e + w\<rparr>) (filter (\<lambda>e. pv < pos_y e) (history s)))"
      and srt': "sorted_wrt (<) (map pos_y (history s'))"
      unfolding Let_def by blast
    obtain x xs where hx: "history s = x # xs" using ne by (cases "history s") auto
    with first have px: "pos_y x < ?pos m" by simp
    have hd': "pos_y (hd (history s')) = ?pos 0"
      using hd hx px by (simp add: h' Let_def)
    have "set (map pos_y (history s')) =
          pos_y ` {e \<in> set (history s). pos_y e < ?pos m} \<union> {?pos m} \<union>
          pos_y ` {e \<in> set (history s). ?pos m < pos_y e}"
      by (auto simp add: h' Let_def)
    also have "\<dots> = set (map pos_y (history s)) \<union> {?pos m}"
      using fresh by (auto simp add: image_iff) (metis linorder_neqE_nat)+
    also have "\<dots> = ?pos ` {0..<Suc m}"
      unfolding set by (auto simp add: less_Suc_eq)
    finally have set': "set (map pos_y (history s')) = ?pos ` {0..<Suc m}" .
    have "[1..<Suc m] = [1..<m] @ [m]" using False by simp
    then have "steps options gene_list0 buff tw one_over [1..<Suc m] ?s0 = Inr s'"
      using s s' by (simp add: steps_append del: upt_Suc)
    moreover have "history s' \<noteq> []" by (simp add: h' Let_def)
    ultimately show ?thesis using srt' hd' set' by blast
  qed
qed

text \<open>
  When the two rank vectors are permutations of \<open>[0, num_genes)\<close> that start with the same
  value, the first entry of the history has the position 0, every later position is above
  it, and the history is strictly increasing in \<^verbatim>\<open>pos_y\<close> whenever the loop variable has
  reached some \<open>m\<close> from 1 to \<open>num_genes\<close>, that is, after every pass.
\<close>

theorem scan_upto_increasing:
  assumes len: "length gene_list0 = num_genes options" "length gene_list1 = num_genes options"
    and p0: "distinct gene_list0" "set gene_list0 = {0..<num_genes options}"
    and p1: "distinct gene_list1" "set gene_list1 = {0..<num_genes options}"
    and same: "gene_list0 ! 0 = gene_list1 ! 0"
    and nz: "(num_genes options * num_genes options) mod 2 ^ 32 \<noteq> 0"
    and m: "1 \<le> m" "m \<le> num_genes options"
  shows "\<exists>s. scan_upto options gene_list0 gene_list1 m = Inr s \<and>
             sorted_wrt (<) (map pos_y (history s))"
proof -
  let ?n = "num_genes options"
  have "\<forall>i \<in> set [0..<length gene_list0].
          i < length gene_list1 \<and> gene_list1 ! i < length (replicate (length gene_list0) (0::nat))"
    using len p1 by (auto simp add: set_conv_nth)
  from fill_buff_total [OF this] obtain buff where
    buff: "build_buff gene_list0 gene_list1 = Inr buff" and lb: "length buff = ?n"
    unfolding build_buff_def using len by auto
  have inv: "buff ! (gene_list1 ! i) = i" if "i < ?n" for i
    using build_buff_inverse [OF buff p1(1)] len that by simp
  have binj: "v = v'" if "v < ?n" "v' < ?n" "buff ! v = buff ! v'" for v v'
  proof -
    from that p1(2) have "v \<in> set gene_list1" "v' \<in> set gene_list1" by simp_all
    then obtain i i' where "i < ?n" "gene_list1 ! i = v" "i' < ?n" "gene_list1 ! i' = v'"
      using len by (auto simp add: in_set_conv_nth)
    with inv [of i] inv [of i'] that(3) show ?thesis by auto
  qed
  have g0: "gene_list0 ! k < ?n" if "k < ?n" for k
    using p0(2) len that by (metis atLeastLessThan_iff nth_mem)
  have pinj: "inj_on (\<lambda>k. buff ! (gene_list0 ! k)) {0..<m}"
  proof (rule inj_onI)
    fix k k' assume k: "k \<in> {0..<m}" "k' \<in> {0..<m}"
      and e: "buff ! (gene_list0 ! k) = buff ! (gene_list0 ! k')"
    from k m have kn: "k < ?n" "k' < ?n" by simp_all
    from binj [OF g0 [OF kn(1)] g0 [OF kn(2)] e] have "gene_list0 ! k = gene_list0 ! k'" .
    with p0(1) kn len show "k = k'" by (simp add: nth_eq_iff_index_eq)
  qed
  have pos0: "buff ! (gene_list0 ! 0) = 0"
    using inv [of 0] same m by simp
  have low: "\<forall>k. 1 \<le> k \<and> k < m \<longrightarrow> buff ! (gene_list0 ! 0) < buff ! (gene_list0 ! k)"
  proof (intro allI impI)
    fix k assume k: "1 \<le> k \<and> k < m"
    with inj_onD [OF pinj, of k 0] have "buff ! (gene_list0 ! k) \<noteq> buff ! (gene_list0 ! 0)"
      by auto
    with pos0 show "buff ! (gene_list0 ! 0) < buff ! (gene_list0 ! k)" by simp
  qed
  have acc: "\<forall>k<m. gene_list0 ! k < length buff"
    using g0 m lb by simp
  have first: "first_line options gene_list0 buff =
      Inr \<lparr>history = [\<lparr>pos_y = buff ! (gene_list0 ! 0),
                         hvalue = calculateWeight 0 (pivot options)\<rparr>], rvalue = 0\<rparr>"
    using len m lb g0 [of 0] by (simp add: first_line_def Let_def)
  have ml: "m \<le> length gene_list0" using m len by simp
  from steps_in_order [OF m(1) ml acc pinj low,
      of options "total_weight options gene_list0"
         "1 / real ((?n * ?n) mod 2 ^ 32)" "calculateWeight 0 (pivot options)"]
  obtain s where "steps options gene_list0 buff (total_weight options gene_list0)
        (1 / real ((?n * ?n) mod 2 ^ 32)) [1..<m]
        \<lparr>history = [\<lparr>pos_y = buff ! (gene_list0 ! 0),
                       hvalue = calculateWeight 0 (pivot options)\<rparr>], rvalue = 0\<rparr> = Inr s"
    and "sorted_wrt (<) (map pos_y (history s))"
    by blast
  then show ?thesis
    using buff nz first by (simp add: scan_upto_def Let_def)
qed

theorem scan_upto_increasing_witness:
  "scan_upto \<lparr>num_genes = 3, num_lists = 2, pivot = 0, two_tailed = False,
                num_procs = 1, mpi_id = 0\<rparr> [0, 2, 1] [0, 1, 2] 3 =
     Inr \<lparr>history = [\<lparr>pos_y = 0, hvalue = 1\<rparr>, \<lparr>pos_y = 1, hvalue = 2\<rparr>,
                      \<lparr>pos_y = 2, hvalue = 3\<rparr>], rvalue = 0\<rparr> \<and>
   sorted_wrt (<) (map pos_y [\<lparr>pos_y = 0, hvalue = 1\<rparr>, \<lparr>pos_y = 1, hvalue = 2\<rparr>,
                              \<lparr>pos_y = 2, hvalue = 3\<rparr>])"
  using scan_upto_increasing
    [of "[0, 2, 1]" "\<lparr>num_genes = 3, num_lists = 2, pivot = 0, two_tailed = False,
                num_procs = 1, mpi_id = 0\<rparr>" "[0, 1, 2]" 3]
  by (simp add: scan_upto_def total_weight_def build_buff_def first_line_def
        step_def calculateWeight_def nvalue_def update_rvalue_def upt_conv_Cons Let_def)

section \<open>Properties of the distribution of pairs\<close>

text \<open>
  Claim C1, at a failing input. Three lists and two clients (\<^verbatim>\<open>num_procs == 3\<close>). The
  master enumerates the six pairs \<open>(i, j)\<close> with \<open>1 \<le> i \<le> j \<le> 3\<close>, but
  \<^verbatim>\<open>total_tests\<close> is \<open>3 * 2 / 2 = 3\<close>: the clients receive the first three pairs only,
  and \<open>(2, 2)\<close>, \<open>(2, 3)\<close> and \<open>(3, 3)\<close> go to no client. The loop of \<^verbatim>\<open>main\<close> without
  MPI scores \<open>(1, 2)\<close>, \<open>(1, 3)\<close> and \<open>(2, 3)\<close>.
\<close>

theorem worker_pairs_gap:
  "enumerated_pairs \<lparr>num_genes = 4, num_lists = 3, pivot = 0, two_tailed = False,
                      num_procs = 3, mpi_id = 0\<rparr> =
     [(1, 1), (1, 2), (1, 3), (2, 2), (2, 3), (3, 3)] \<and>
   worker_pairs \<lparr>num_genes = 4, num_lists = 3, pivot = 0, two_tailed = False,
                  num_procs = 3, mpi_id = 0\<rparr> =
     [[(1, 1)], [(1, 2), (1, 3)]] \<and>
   main_pairs \<lparr>num_genes = 4, num_lists = 3, pivot = 0, two_tailed = False,
                  num_procs = 3, mpi_id = 0\<rparr> =
     [(1, 2), (1, 3), (2, 3)]"
  by (simp add: enumerated_pairs_def worker_pairs_def test_numbers_def send_buffer_def
        main_pairs_def total_tests_def processes_per_node_def extra_processes_def
        upt_conv_Cons Let_def)

subsection \<open>What the master enumerates and what it sends\<close>

lemma client_pairs_flatten: "client_pairs (concat (map (\<lambda>(a, b). [a, b]) ps)) = ps"
  by (induction ps) auto

lemma concat_map_concat_map:
  "concat (map (\<lambda>i. concat (map (\<lambda>j. [i, j]) (f i))) xs) =
   concat (map (\<lambda>(a, b). [a, b]) (concat (map (\<lambda>i. map (\<lambda>j. (i, j)) (f i)) xs)))"
  by (induction xs) (simp_all add: map_concat comp_def)

lemma test_numbers_flat:
  "test_numbers options = concat (map (\<lambda>(a, b). [a, b]) (all_pairs (num_lists options)))"
  unfolding test_numbers_def all_pairs_def by (rule concat_map_concat_map)

lemma enumerated_pairs_eq: "enumerated_pairs options = all_pairs (num_lists options)"
  by (simp add: enumerated_pairs_def test_numbers_flat client_pairs_flatten)

lemma set_all_pairs: "set (all_pairs L) = {(i, j). 1 \<le> i \<and> i \<le> j \<and> j \<le> L}"
proof -
  have "set (all_pairs L) = (\<Union>i \<in> {1..<L + 1}. Pair i ` {i..<L + 1})"
    unfolding all_pairs_def set_concat set_map set_upt image_image ..
  also have "\<dots> = {(i, j). 1 \<le> i \<and> i \<le> j \<and> j \<le> L}"
    by (auto simp add: image_iff)
  finally show ?thesis .
qed

lemma distinct_all_pairs: "distinct (all_pairs L)"
  unfolding all_pairs_def
proof (rule distinct_concat)
  show "distinct (map (\<lambda>i. map (Pair i) [i..<L + 1]) [1..<L + 1])"
    unfolding distinct_map
  proof
    show "distinct [1..<L + 1]" by (rule distinct_upt)
    show "inj_on (\<lambda>i. map (Pair i) [i..<L + 1]) (set [1..<L + 1])"
    proof (rule inj_onI)
      fix x y
      assume x: "x \<in> set [1..<L + 1]" and y: "y \<in> set [1..<L + 1]"
        and e: "map (Pair x) [x..<L + 1] = map (Pair y) [y..<L + 1]"
      from x have "[x..<L + 1] = x # [Suc x..<L + 1]" by (simp add: upt_conv_Cons del: upt_Suc)
      moreover from y have "[y..<L + 1] = y # [Suc y..<L + 1]" by (simp add: upt_conv_Cons del: upt_Suc)
      ultimately show "x = y" using e by simp
    qed
  qed
next
  fix ys assume "ys \<in> set (map (\<lambda>i. map (Pair i) [i..<L + 1]) [1..<L + 1])"
  then show "distinct ys" by (auto simp add: distinct_map inj_on_def simp del: upt_Suc)
next
  fix ys zs
  assume "ys \<in> set (map (\<lambda>i. map (Pair i) [i..<L + 1]) [1..<L + 1])"
    "zs \<in> set (map (\<lambda>i. map (Pair i) [i..<L + 1]) [1..<L + 1])" "ys \<noteq> zs"
  then show "set ys \<inter> set zs = {}" by (auto simp del: upt_Suc)
qed

lemma sum_row_lengths:
  "n \<le> L \<Longrightarrow> sum_list (map (\<lambda>i. L + 1 - i) [1..<n + 1]) * 2 + n * n = n * (2 * L + 1)"
proof (induction n)
  case 0
  show ?case by simp
next
  case (Suc n)
  then have ih: "sum_list (map (\<lambda>i. L + 1 - i) [1..<n + 1]) * 2 + n * n = n * (2 * L + 1)"
    by simp
  have "[1..<Suc n + 1] = [1..<n + 1] @ [Suc n]" by simp
  then have "sum_list (map (\<lambda>i. L + 1 - i) [1..<Suc n + 1]) =
             sum_list (map (\<lambda>i. L + 1 - i) [1..<n + 1]) + (L - n)"
    by simp
  moreover have "(L - n) * 2 + 2 * n = 2 * L" using Suc.prems by simp
  ultimately show ?case using ih by (simp add: algebra_simps)
qed

lemma length_all_pairs: "length (all_pairs L) = L * (L + 1) div 2"
proof -
  have "length (all_pairs L) = sum_list (map (\<lambda>i. L + 1 - i) [1..<L + 1])"
    unfolding all_pairs_def length_concat map_map comp_def length_map length_upt ..
  moreover have "sum_list (map (\<lambda>i. L + 1 - i) [1..<L + 1]) * 2 + L * L = L * (2 * L + 1)"
    by (rule sum_row_lengths) simp
  ultimately have "length (all_pairs L) * 2 = L * (L + 1)"
    by (simp add: algebra_simps)
  then show ?thesis by simp
qed


lemma take_flat: "take (k * 2) (concat (map (\<lambda>(a, b). [a, b]) ps)) =
                  concat (map (\<lambda>(a, b). [a, b]) (take k ps))"
proof (induction ps arbitrary: k)
  case Nil
  show ?case by simp
next
  case (Cons p ps)
  show ?case
  proof (cases k)
    case 0
    then show ?thesis by simp
  next
    case (Suc k')
    with Cons.IH [of k'] show ?thesis by (cases p) simp
  qed
qed

lemma drop_flat: "drop (k * 2) (concat (map (\<lambda>(a, b). [a, b]) ps)) =
                  concat (map (\<lambda>(a, b). [a, b]) (drop k ps))"
proof (induction ps arbitrary: k)
  case Nil
  show ?case by simp
next
  case (Cons p ps)
  show ?case
  proof (cases k)
    case 0
    then show ?thesis by simp
  next
    case (Suc k')
    with Cons.IH [of k'] show ?thesis by (cases p) simp
  qed
qed

lemma client_pairs_send_buffer:
  "client_pairs (send_buffer options i) =
     take (processes_per_node options +
           (if i = num_procs options - 1 then extra_processes options else 0))
          (drop (processes_per_node options * (i - 1)) (enumerated_pairs options))"
proof -
  have "processes_per_node options * 2 * (i - 1) = processes_per_node options * (i - 1) * 2"
    by simp
  then show ?thesis
    unfolding send_buffer_def Let_def test_numbers_flat enumerated_pairs_eq
    by (simp only: drop_flat take_flat client_pairs_flatten)
qed

lemma concat_equal_chunks:
  "concat (map (\<lambda>i. take k (drop (k * (i - 1)) ps)) [1..<n + 1]) = take (k * n) ps"
proof (induction n)
  case 0
  show ?case by simp
next
  case (Suc n)
  have "[1..<Suc n + 1] = [1..<n + 1] @ [Suc n]" by simp
  then have "concat (map (\<lambda>i. take k (drop (k * (i - 1)) ps)) [1..<Suc n + 1]) =
             concat (map (\<lambda>i. take k (drop (k * (i - 1)) ps)) [1..<n + 1]) @
             take k (drop (k * n) ps)"
    by (simp del: upt_Suc)
  also have "\<dots> = take (k * n) ps @ take k (drop (k * n) ps)"
    by (simp only: Suc.IH)
  also have "\<dots> = take (k * n + k) ps"
    by (simp only: take_add)
  also have "k * n + k = k * Suc n" by simp
  finally show ?case .
qed

lemma concat_worker_pairs:
  assumes "2 \<le> num_procs options"
  shows "concat (worker_pairs options) =
         take (total_tests options) (enumerated_pairs options)"
proof -
  define W where "W = num_procs options - 1"
  define k where "k = processes_per_node options"
  define e where "e = extra_processes options"
  define ps where "ps = enumerated_pairs options"
  have W: "1 \<le> W" "num_procs options = W + 1" using assms by (simp_all add: W_def)
  have split: "[1..<num_procs options] = [1..<(W - 1) + 1] @ [W]"
    using W by (cases W) simp_all
  have "map (\<lambda>i. client_pairs (send_buffer options i)) [1..<(W - 1) + 1] =
        map (\<lambda>i. take k (drop (k * (i - 1)) ps)) [1..<(W - 1) + 1]"
    by (rule map_cong) (auto simp add: client_pairs_send_buffer k_def ps_def W_def)
  moreover have "client_pairs (send_buffer options W) = take (k + e) (drop (k * (W - 1)) ps)"
    by (simp add: client_pairs_send_buffer k_def ps_def W_def e_def)
  ultimately have "concat (worker_pairs options) =
      concat (map (\<lambda>i. take k (drop (k * (i - 1)) ps)) [1..<(W - 1) + 1]) @
      take (k + e) (drop (k * (W - 1)) ps)"
    unfolding worker_pairs_def split
    by (simp only: map_append concat_append list.map concat.simps append_Nil2)
  also have "\<dots> = take (k * (W - 1)) ps @ take (k + e) (drop (k * (W - 1)) ps)"
    by (simp only: concat_equal_chunks)
  also have "\<dots> = take (k * (W - 1) + (k + e)) ps"
    by (simp only: take_add)
  also have "k * (W - 1) + (k + e) = total_tests options"
  proof -
    have "k * (W - 1) + k = k * W" using W by (cases W) simp_all
    moreover have "k * W + e = total_tests options"
      unfolding k_def e_def W_def processes_per_node_def extra_processes_def
      by (rule div_mult_mod_eq)
    ultimately show ?thesis by simp
  qed
  finally show ?thesis by (simp add: ps_def)
qed

lemma set_main_pairs:
  "set (main_pairs ops) = {(i, j). 1 \<le> i \<and> i < j \<and> j \<le> num_lists ops}"
proof -
  have "set (main_pairs ops) =
        (\<Union>i \<in> {0..<num_lists ops}. (\<lambda>j. (i + 1, j + 1)) ` {i + 1..<num_lists ops})"
    unfolding main_pairs_def set_concat set_map set_upt image_image ..
  also have "\<dots> = {(i, j). 1 \<le> i \<and> i < j \<and> j \<le> num_lists ops}"
  proof (intro set_eqI iffI)
    fix p assume "p \<in> (\<Union>i \<in> {0..<num_lists ops}. (\<lambda>j. (i + 1, j + 1)) ` {i + 1..<num_lists ops})"
    then show "p \<in> {(i, j). 1 \<le> i \<and> i < j \<and> j \<le> num_lists ops}" by auto
  next
    fix p assume "p \<in> {(i, j). 1 \<le> i \<and> i < j \<and> j \<le> num_lists ops}"
    then obtain a b where p: "p = (a, b)" "1 \<le> a" "a < b" "b \<le> num_lists ops" by auto
    then have "a - 1 \<in> {0..<num_lists ops}" "b - 1 \<in> {(a - 1) + 1..<num_lists ops}"
      "p = ((a - 1) + 1, (b - 1) + 1)" by auto
    then show "p \<in> (\<Union>i \<in> {0..<num_lists ops}. (\<lambda>j. (i + 1, j + 1)) ` {i + 1..<num_lists ops})"
      by blast
  qed
  finally show ?thesis .
qed

text \<open>
  The master enumerates every pair \<open>(i, j)\<close> with \<open>1 \<le> i \<le> j \<le> num_lists\<close> once, self-pairs
  included: \<open>num_lists * (num_lists + 1) / 2\<close> pairs.
\<close>

theorem enumerated_pairs_complete:
  "set (enumerated_pairs options) = {(i, j). 1 \<le> i \<and> i \<le> j \<and> j \<le> num_lists options} \<and>
   distinct (enumerated_pairs options) \<and>
   length (enumerated_pairs options) = num_lists options * (num_lists options + 1) div 2"
  by (simp only: enumerated_pairs_eq set_all_pairs distinct_all_pairs length_all_pairs)

text \<open>
  With at least one client, the pairs of the clients, one client after the other, are
  the first \<^verbatim>\<open>total_tests\<close> pairs of the enumeration: no pair goes to two clients or twice
  to one, and at least \<open>num_lists\<close> of the pairs enumerated go to no client.
\<close>

theorem worker_pairs_prefix:
  assumes "2 \<le> num_procs options"
  shows "concat (worker_pairs options) = take (total_tests options) (enumerated_pairs options) \<and>
         distinct (concat (worker_pairs options)) \<and>
         length (concat (worker_pairs options)) + num_lists options
           \<le> length (enumerated_pairs options)"
proof -
  define L where "L = num_lists options"
  note c = concat_worker_pairs [OF assms]
  have d: "distinct (concat (worker_pairs options))"
    unfolding c enumerated_pairs_eq by (rule distinct_take) (rule distinct_all_pairs)
  have "total_tests options \<le> L * (L - 1) div 2"
    unfolding total_tests_def L_def by (rule div_le_mono) (rule mod_less_eq_dividend)
  moreover have "L * (L + 1) = L * (L - 1) + L * 2"
    by (cases L) simp_all
  then have "L * (L + 1) div 2 = L * (L - 1) div 2 + L"
    by simp
  ultimately have "length (concat (worker_pairs options)) + L \<le> length (enumerated_pairs options)"
    unfolding c enumerated_pairs_eq length_all_pairs L_def [symmetric] by simp
  with c d show ?thesis by (simp add: L_def)
qed

theorem worker_pairs_prefix_witness:
  "concat (worker_pairs \<lparr>num_genes = 4, num_lists = 3, pivot = 0, two_tailed = False,
                          num_procs = 3, mpi_id = 0\<rparr>) = [(1, 1), (1, 2), (1, 3)] \<and>
   take (total_tests \<lparr>num_genes = 4, num_lists = 3, pivot = 0, two_tailed = False,
                      num_procs = 3, mpi_id = 0\<rparr>)
        (enumerated_pairs \<lparr>num_genes = 4, num_lists = 3, pivot = 0, two_tailed = False,
                            num_procs = 3, mpi_id = 0\<rparr>) = [(1, 1), (1, 2), (1, 3)] \<and>
   length (enumerated_pairs \<lparr>num_genes = 4, num_lists = 3, pivot = 0, two_tailed = False,
                            num_procs = 3, mpi_id = 0\<rparr>) = 6"
  using worker_pairs_prefix [of "\<lparr>num_genes = 4, num_lists = 3, pivot = 0, two_tailed = False,
                          num_procs = 3, mpi_id = 0\<rparr>"]
  by (simp add: enumerated_pairs_def worker_pairs_def test_numbers_def send_buffer_def
        total_tests_def processes_per_node_def extra_processes_def upt_conv_Cons Let_def)

section \<open>Properties of the list reader\<close>

lemma read_loop_writes:
  assumes "read_loop options ts gidx gene_list = Inr (gidx', gene_list')"
  shows "gidx \<le> gidx' \<and> gidx' \<le> max gidx (num_genes options) \<and> gidx' - gidx \<le> length ts \<and>
         length gene_list' = length gene_list \<and>
         gene_list' = fold (\<lambda>(g, t) gl. gl[t := g]) (zip [gidx..<gidx'] ts) gene_list"
  using assms
proof (induction ts arbitrary: gidx gene_list)
  case Nil
  then show ?case by simp
next
  case (Cons t ts)
  show ?case
  proof (cases "t < 2 ^ 32 \<and> gidx < num_genes options")
    case True
    with Cons.prems have t: "t < length gene_list"
      and r: "read_loop options ts (gidx + 1) (gene_list[t := gidx]) = Inr (gidx', gene_list')"
      by (auto split: if_splits)
    from Cons.IH [OF r] have ih1: "gidx + 1 \<le> gidx'"
      and ih2: "gidx' \<le> max (gidx + 1) (num_genes options)"
      and ih3: "gidx' - (gidx + 1) \<le> length ts"
      and ih4: "length gene_list' = length (gene_list[t := gidx])"
      and ih5: "gene_list' =
        fold (\<lambda>(g, t) gl. gl[t := g]) (zip [gidx + 1..<gidx'] ts) (gene_list[t := gidx])"
      by blast+
    have "[gidx..<gidx'] = gidx # [gidx + 1..<gidx']"
      using ih1 by (simp add: upt_conv_Cons)
    then have "fold (\<lambda>(g, t) gl. gl[t := g]) (zip [gidx..<gidx'] (t # ts)) gene_list =
               fold (\<lambda>(g, t) gl. gl[t := g]) (zip [gidx + 1..<gidx'] ts) (gene_list[t := gidx])"
      by simp
    with ih5 have "gene_list' = fold (\<lambda>(g, t) gl. gl[t := g]) (zip [gidx..<gidx'] (t # ts)) gene_list"
      by simp
    moreover have "gidx \<le> gidx'" using ih1 by simp
    moreover have "gidx' \<le> max gidx (num_genes options)" using ih2 True by simp
    moreover have "gidx' - gidx \<le> length (t # ts)" using ih3 by simp
    moreover have "length gene_list' = length gene_list" using ih4 by simp
    ultimately show ?thesis by blast
  next
    case False
    with Cons.prems show ?thesis by auto
  qed
qed

lemma read_loop_bounds:
  assumes "length gene_list = num_genes options" "\<forall>x \<in> set gene_list. x < num_genes options"
  shows "(read_loop options ts gidx gene_list = Inl UB_OutOfBounds \<longleftrightarrow>
            (\<exists>t \<in> set (take (num_genes options - gidx) (takeWhile (\<lambda>t. t < 2 ^ 32) ts)).
               num_genes options \<le> t)) \<and>
         (\<forall>g gl. read_loop options ts gidx gene_list = Inr (g, gl) \<longrightarrow>
            length gl = num_genes options \<and> (\<forall>x \<in> set gl. x < num_genes options))"
  using assms
proof (induction ts arbitrary: gidx gene_list)
  case Nil
  then show ?case by simp
next
  case (Cons t ts)
  show ?case
  proof (cases "t < 2 ^ 32 \<and> gidx < num_genes options")
    case True
    note go = this
    show ?thesis
    proof (cases "t < num_genes options")
      case True
      have l: "length (gene_list[t := gidx]) = num_genes options"
        using Cons.prems by simp
      have s: "\<forall>x \<in> set (gene_list[t := gidx]). x < num_genes options"
        using Cons.prems go by (auto dest!: set_update_subset_insert [THEN subsetD])
      have tk: "take (num_genes options - gidx) (takeWhile (\<lambda>t. t < 2 ^ 32) (t # ts)) =
                t # take (num_genes options - (gidx + 1)) (takeWhile (\<lambda>t. t < 2 ^ 32) ts)"
      proof -
        have "num_genes options - gidx = Suc (num_genes options - (gidx + 1))"
          using go by arith
        then show ?thesis using go by simp
      qed
      from Cons.IH [OF l s, of "gidx + 1"] go True Cons.prems(1) tk show ?thesis
        by simp
    next
      case False
      have tk: "take (num_genes options - gidx) (takeWhile (\<lambda>t. t < 2 ^ 32) (t # ts)) =
                t # take (num_genes options - (gidx + 1)) (takeWhile (\<lambda>t. t < 2 ^ 32) ts)"
      proof -
        have "num_genes options - gidx = Suc (num_genes options - (gidx + 1))"
          using go by arith
        then show ?thesis using go by simp
      qed
      from go False Cons.prems(1) tk show ?thesis by simp
    qed
  next
    case False
    with Cons.prems show ?thesis by auto
  qed
qed


lemma read_loop_error:
  "read_loop options ts gidx gene_list = Inl e \<Longrightarrow> e = UB_OutOfBounds"
  by (induction ts arbitrary: gidx gene_list) (auto split: if_splits)

lemma readLineIndex_total:
  assumes "\<forall>t \<in> set (concat (drop idx fin)). t < num_genes options"
  shows "\<exists>gl. readLineIndex options fin idx (replicate (num_genes options) 0) = Inr gl \<and>
              length gl = num_genes options \<and> (\<forall>x \<in> set gl. x < num_genes options)"
proof -
  let ?z = "replicate (num_genes options) (0::nat)"
  let ?ts = "concat (drop idx fin)"
  have z: "length ?z = num_genes options" "\<forall>x \<in> set ?z. x < num_genes options"
    by auto
  have "t < num_genes options"
    if "t \<in> set (take (num_genes options - 0) (takeWhile (\<lambda>t. t < 2 ^ 32) ?ts))" for t
  proof -
    from that have "t \<in> set ?ts"
      by (blast dest: in_set_takeD set_takeWhileD)
    with assms show ?thesis by blast
  qed
  then have "\<not> (\<exists>t \<in> set (take (num_genes options - 0) (takeWhile (\<lambda>t. t < 2 ^ 32) ?ts)).
            num_genes options \<le> t)"
    by (meson not_le)
  with read_loop_bounds [OF z, of ?ts 0]
  have no: "read_loop options ?ts 0 ?z \<noteq> Inl UB_OutOfBounds"
    and ok: "\<forall>g gl. read_loop options ?ts 0 ?z = Inr (g, gl) \<longrightarrow>
            length gl = num_genes options \<and> (\<forall>x \<in> set gl. x < num_genes options)"
    by blast+
  show ?thesis
  proof (cases "read_loop options ?ts 0 ?z")
    case (Inl e)
    with read_loop_error [of options ?ts 0 ?z e] no show ?thesis by simp
  next
    case (Inr p)
    obtain g gl where p: "p = (g, gl)" by (cases p)
    with Inr ok show ?thesis
      by (simp add: readLineIndex_def read_line_def)
  qed
qed

lemma scorePair_total:
  assumes "length gene_list0 = num_genes options" "length gene_list1 = num_genes options"
    and "\<forall>x \<in> set gene_list0. x < num_genes options"
    and "\<forall>x \<in> set gene_list1. x < num_genes options"
    and "0 < num_genes options" "(num_genes options * num_genes options) mod 2 ^ 32 \<noteq> 0"
  shows "\<exists>r. scorePair options gene_list0 gene_list1 = Inr r"
proof -
  have "\<exists>s. scan_upto options gene_list0 gene_list1 (num_genes options) = Inr s"
    by (rule scan_upto_total) (use assms in simp_all)
  moreover have "\<exists>s. scan_upto options gene_list0 (rev gene_list1) (num_genes options) = Inr s"
    by (rule scan_upto_total) (use assms in simp_all)
  ultimately show ?thesis
    by (auto simp add: scorePair_def scoreLists_def)
qed

lemma processPair_total:
  assumes "1 \<le> l0" "1 \<le> l1" "\<forall>t \<in> set (concat (drop 1 fin)). t < num_genes options"
    and "0 < num_genes options" "(num_genes options * num_genes options) mod 2 ^ 32 \<noteq> 0"
  shows "\<exists>r. processPair options fin l0 l1 = Inr r"
proof -
  have sub: "set (concat (drop l fin)) \<subseteq> set (concat (drop 1 fin))" if "1 \<le> l" for l
    using set_drop_subset_set_drop [OF that, of fin] by auto
  have "\<forall>t \<in> set (concat (drop l0 fin)). t < num_genes options"
    using sub [OF assms(1)] assms(3) by blast
  then obtain g0 where g0: "readLineIndex options fin l0 (replicate (num_genes options) 0) = Inr g0"
    "length g0 = num_genes options" "\<forall>x \<in> set g0. x < num_genes options"
    using readLineIndex_total by blast
  have "\<forall>t \<in> set (concat (drop l1 fin)). t < num_genes options"
    using sub [OF assms(2)] assms(3) by blast
  then obtain g1 where g1: "readLineIndex options fin l1 (replicate (num_genes options) 0) = Inr g1"
    "length g1 = num_genes options" "\<forall>x \<in> set g1. x < num_genes options"
    using readLineIndex_total by blast
  from scorePair_total [OF g0(2) g1(2) g0(3) g1(3) assms(4) assms(5)] g0(1) g1(1)
  show ?thesis by (simp add: processPair_def)
qed

text \<open>
  Claim C8, as stated, says that a gene identifier outside \<open>[0, num_genes)\<close> makes the
  comparison fail fast instead of writing out of bounds. The reader has no check: with two
  genes and the line \<^verbatim>\<open>0 5\<close>, the second pass of the loop runs \<^verbatim>\<open>gene_list[5] = 1\<close> on
  a vector of two entries, an access outside the vector, and so does the scoring of the
  pair that reads this line.
\<close>

theorem readLineIndex_out_of_bounds_counterexample:
  "\<not> (5::nat) < num_genes \<lparr>num_genes = 2, num_lists = 2, pivot = 0, two_tailed = False,
                   num_procs = 1, mpi_id = 0\<rparr> \<and>
   readLineIndex \<lparr>num_genes = 2, num_lists = 2, pivot = 0, two_tailed = False,
                   num_procs = 1, mpi_id = 0\<rparr>
     [[2, 2], [0, 5], [1, 0]] 1 [0, 0] = Inl UB_OutOfBounds \<and>
   processPair \<lparr>num_genes = 2, num_lists = 2, pivot = 0, two_tailed = False,
                   num_procs = 1, mpi_id = 0\<rparr>
     [[2, 2], [0, 5], [1, 0]] 1 2 = Inl UB_OutOfBounds"
  by (simp add: scoreLists_def scan_upto_def total_weight_def build_buff_def first_line_def
        step_def calculateWeight_def nvalue_def update_rvalue_def upt_conv_Cons Let_def
        processPair_def scorePair_def readLineIndex_def read_line_def)

text \<open>
  Claim C8, amended. The reader uses every number it stores as the index of an unchecked
  write into a vector of \<open>num_genes\<close> entries: the write is outside the vector (undefined
  behaviour, nothing fails fast) exactly when one of the numbers stored, the first
  \<open>num_genes\<close> numbers from the selected line on, is not below \<open>num_genes\<close>. When all of
  them are below \<open>num_genes\<close>, the vector the reader leaves has \<open>num_genes\<close> entries, all
  below \<open>num_genes\<close>, and every index the scorer takes from it to build the rank lookup is
  within the lookup.
\<close>

theorem readLineIndex_bounds:
  assumes "length gene_list = num_genes options" "\<forall>x \<in> set gene_list. x < num_genes options"
  shows "(readLineIndex options fin idx gene_list = Inl UB_OutOfBounds \<longleftrightarrow>
            (\<exists>t \<in> set (take (num_genes options)
                               (takeWhile (\<lambda>t. t < 2 ^ 32) (concat (drop idx fin)))).
               num_genes options \<le> t)) \<and>
         (\<forall>gene_list'. readLineIndex options fin idx gene_list = Inr gene_list' \<longrightarrow>
            length gene_list' = num_genes options \<and>
            (\<forall>x \<in> set gene_list'. x < num_genes options) \<and>
            (\<forall>gene_list0. length gene_list0 = num_genes options \<longrightarrow>
               (\<exists>buff. build_buff gene_list0 gene_list' = Inr buff)))"
proof -
  let ?ts = "concat (drop idx fin)"
  from read_loop_bounds [OF assms, of ?ts 0]
  have a: "read_loop options ?ts 0 gene_list = Inl UB_OutOfBounds \<longleftrightarrow>
            (\<exists>t \<in> set (take (num_genes options) (takeWhile (\<lambda>t. t < 2 ^ 32) ?ts)).
               num_genes options \<le> t)"
    and b: "\<And>g gl. read_loop options ?ts 0 gene_list = Inr (g, gl) \<Longrightarrow>
            length gl = num_genes options \<and> (\<forall>x \<in> set gl. x < num_genes options)"
    by simp_all
  have 1: "readLineIndex options fin idx gene_list = Inl UB_OutOfBounds \<longleftrightarrow>
           read_loop options ?ts 0 gene_list = Inl UB_OutOfBounds"
    by (auto simp add: readLineIndex_def read_line_def split: sum.splits)
  have 2: "length gl = num_genes options \<and> (\<forall>x \<in> set gl. x < num_genes options) \<and>
            (\<forall>gene_list0. length gene_list0 = num_genes options \<longrightarrow>
               (\<exists>buff. build_buff gene_list0 gl = Inr buff))"
    if "readLineIndex options fin idx gene_list = Inr gl" for gl
  proof -
    from that obtain g where "read_loop options ?ts 0 gene_list = Inr (g, gl)"
      by (auto simp add: readLineIndex_def read_line_def split: sum.splits)
    from b [OF this] have gl: "length gl = num_genes options" "\<forall>x \<in> set gl. x < num_genes options"
      by simp_all
    have "\<exists>buff. build_buff gene_list0 gl = Inr buff"
      if "length gene_list0 = num_genes options" for gene_list0
    proof -
      have "\<forall>i \<in> set [0..<length gene_list0].
              i < length gl \<and> gl ! i < length (replicate (length gene_list0) (0::nat))"
        using gl that by simp
      from fill_buff_total [OF this] show ?thesis
        by (auto simp add: build_buff_def)
    qed
    with gl show ?thesis by blast
  qed
  show ?thesis using a 1 2 by blast
qed

theorem readLineIndex_bounds_witness:
  "readLineIndex \<lparr>num_genes = 2, num_lists = 2, pivot = 0, two_tailed = False,
                   num_procs = 1, mpi_id = 0\<rparr>
     [[2, 2], [0, 5], [1, 0]] 1 [0, 0] = Inl UB_OutOfBounds \<and>
   readLineIndex \<lparr>num_genes = 2, num_lists = 2, pivot = 0, two_tailed = False,
                   num_procs = 1, mpi_id = 0\<rparr>
     [[2, 2], [0, 5], [1, 0]] 2 [0, 0] = Inr [1, 0] \<and>
   build_buff [0, 1] [1, 0] = Inr [1, 0]"
  using readLineIndex_bounds
      [of "[0, 0]" "\<lparr>num_genes = 2, num_lists = 2, pivot = 0, two_tailed = False,
                   num_procs = 1, mpi_id = 0\<rparr>"
          "[[2, 2], [0, 5], [1, 0]]" 1]
    readLineIndex_bounds
      [of "[0, 0]" "\<lparr>num_genes = 2, num_lists = 2, pivot = 0, two_tailed = False,
                   num_procs = 1, mpi_id = 0\<rparr>"
          "[[2, 2], [0, 5], [1, 0]]" 2]
  by (simp add: readLineIndex_def read_line_def build_buff_def upt_conv_Cons)

text \<open>
  Claim C9, as stated, says that the reader takes at most \<open>num_genes\<close> numbers from the
  selected line and that a short read is fatal for the pair. With two genes: when line 1
  holds the single number 1, the reader goes on into line 2 and stores two numbers; when
  line 2 holds one number only, and when the file has no line 2 at all, the pair
  \<open>(1, 2)\<close> is scored all the same, on a second vector still holding its initial zeros.
\<close>

theorem readLineIndex_short_read_counterexample:
  "length ([[2, 3], [1], [0, 1], [1, 0]] ! 1) = (1::nat) \<and>
   read_line \<lparr>num_genes = 2, num_lists = 3, pivot = 0, two_tailed = False,
                   num_procs = 1, mpi_id = 0\<rparr>
     [[2, 3], [1], [0, 1], [1, 0]] 1 [0, 0] = Inr (2, [1, 0]) \<and>
   readLineIndex \<lparr>num_genes = 2, num_lists = 2, pivot = 0, two_tailed = False,
                   num_procs = 1, mpi_id = 0\<rparr>
     [[2, 2], [0, 1], [1]] 2 [0, 0] = Inr [0, 0] \<and>
   processPair \<lparr>num_genes = 2, num_lists = 2, pivot = 0, two_tailed = False,
                   num_procs = 1, mpi_id = 0\<rparr>
     [[2, 2], [0, 1], [1]] 1 2 = Inr (sqrt 2 / 2) \<and>
   processPair \<lparr>num_genes = 2, num_lists = 2, pivot = 0, two_tailed = False,
                   num_procs = 1, mpi_id = 0\<rparr>
     [[2, 2], [0, 1]] 1 2 = Inr (sqrt 2 / 2)"
  by (simp add: scoreLists_def scan_upto_def total_weight_def build_buff_def first_line_def
        step_def calculateWeight_def nvalue_def update_rvalue_def upt_conv_Cons Let_def
        processPair_def scorePair_def readLineIndex_def read_line_def)

lemma read_loop_count:
  "read_loop options ts gidx gene_list = Inr (gidx', gene_list') \<Longrightarrow>
   gidx' = gidx + min (num_genes options - gidx) (length (takeWhile (\<lambda>t. t < 2 ^ 32) ts))"
proof (induction ts arbitrary: gidx gene_list)
  case Nil
  then show ?case by simp
next
  case (Cons t ts)
  show ?case
  proof (cases "t < 2 ^ 32 \<and> gidx < num_genes options")
    case True
    with Cons.prems have
      r: "read_loop options ts (gidx + 1) (gene_list[t := gidx]) = Inr (gidx', gene_list')"
      by (auto split: if_splits)
    from Cons.IH [OF r] have "gidx' = gidx + 1 +
        min (num_genes options - (gidx + 1)) (length (takeWhile (\<lambda>t. t < 2 ^ 32) ts))" .
    moreover have "takeWhile (\<lambda>t. t < 2 ^ 32) (t # ts) = t # takeWhile (\<lambda>t. t < 2 ^ 32) ts"
      using True by simp
    ultimately show ?thesis using True by (simp add: min_def) arith
  next
    case False
    with Cons.prems show ?thesis by auto
  qed
qed

lemma read_loop_returns:
  "\<forall>t \<in> set (take (num_genes options - gidx) (takeWhile (\<lambda>t. t < 2 ^ 32) ts)).
      t < length gene_list \<Longrightarrow>
   \<exists>gidx' gene_list'. read_loop options ts gidx gene_list = Inr (gidx', gene_list')"
proof (induction ts arbitrary: gidx gene_list)
  case Nil
  then show ?case by simp
next
  case (Cons t ts)
  show ?case
  proof (cases "t < 2 ^ 32 \<and> gidx < num_genes options")
    case True
    then have n: "num_genes options - gidx = Suc (num_genes options - (gidx + 1))" by arith
    from Cons.prems True have t: "t < length gene_list"
      and rest: "\<forall>u \<in> set (take (num_genes options - (gidx + 1))
                         (takeWhile (\<lambda>t. t < 2 ^ 32) ts)). u < length (gene_list[t := gidx])"
      unfolding n by simp_all
    from Cons.IH [OF rest] True t show ?thesis by simp
  next
    case False
    then show ?thesis by auto
  qed
qed

lemma fold_store_other:
  "x \<notin> snd ` set ps \<Longrightarrow> fold (\<lambda>(g, t) gl. gl[t := g]) ps gl ! x = gl ! x"
  by (induction ps arbitrary: gl) (auto simp add: nth_list_update_neq)

lemma snd_zip_upt:
  "n \<le> length ts \<Longrightarrow> snd ` set (zip [0..<n] ts) = set (take n ts)"
proof -
  assume "n \<le> length ts"
  then have "map snd (zip [0..<n] ts) = take n ts"
    by (simp add: map_snd_zip_take)
  then show ?thesis by (metis set_map)
qed

text \<open>
  Claim C9, amended. When the reader returns, the number of numbers it has stored is the
  smaller of \<open>num_genes\<close> and the number of numbers the file holds from the selected line
  to its end (up to the first that does not fit an \<^verbatim>\<open>unsigned int\<close>): so it stores at
  most \<open>num_genes\<close> numbers, never reads past the end of the file, and, when the selected
  line is short, goes on with the lines after it. The numbers stored are the first ones
  from the selected line on, in order, number \<open>k\<close> being stored as
  \<^verbatim>\<open>gene_list[number] = k\<close>, and every entry that is not written keeps the value it had. The
  reader returns whenever the numbers it stores are within the vector. A short read is
  not detected: for list indices from 1 on, whatever the number of lines and of numbers on
  a line, when the numbers after the header are below \<open>num_genes\<close> the pair is scored and
  a score is reported.
\<close>

theorem read_line_stores:
  "(read_line options fin idx gene_list = Inr (gidx, gene_list') \<longrightarrow>
      gidx = min (num_genes options)
               (length (takeWhile (\<lambda>t. t < 2 ^ 32) (concat (drop idx fin)))) \<and>
      gidx \<le> num_genes options \<and> gidx \<le> length (concat (drop idx fin)) \<and>
      gene_list' =
        fold (\<lambda>(g, t) gl. gl[t := g]) (zip [0..<gidx] (concat (drop idx fin))) gene_list \<and>
      (\<forall>g < length gene_list.
         g \<notin> set (take gidx (concat (drop idx fin))) \<longrightarrow> gene_list' ! g = gene_list ! g)) \<and>
   ((\<forall>t \<in> set (take (num_genes options)
                     (takeWhile (\<lambda>t. t < 2 ^ 32) (concat (drop idx fin)))).
       t < length gene_list)
    \<longrightarrow> (\<exists>gl. read_line options fin idx gene_list =
               Inr (min (num_genes options)
                      (length (takeWhile (\<lambda>t. t < 2 ^ 32) (concat (drop idx fin)))), gl))) \<and>
   (1 \<le> l0 \<and> 1 \<le> l1 \<and> (\<forall>t \<in> set (concat (drop 1 fin)). t < num_genes options) \<and>
    1 \<le> num_genes options \<and> (num_genes options * num_genes options) mod 2 ^ 32 \<noteq> 0
    \<longrightarrow> (\<exists>r. processPair options fin l0 l1 = Inr r))"
proof -
  let ?ts = "concat (drop idx fin)"
  let ?n = "min (num_genes options) (length (takeWhile (\<lambda>t. t < 2 ^ 32) ?ts))"
  have a: "gidx = ?n \<and> gidx \<le> num_genes options \<and> gidx \<le> length ?ts \<and>
      gene_list' = fold (\<lambda>(g, t) gl. gl[t := g]) (zip [0..<gidx] ?ts) gene_list \<and>
      (\<forall>g < length gene_list.
         g \<notin> set (take gidx ?ts) \<longrightarrow> gene_list' ! g = gene_list ! g)"
    if r: "read_line options fin idx gene_list = Inr (gidx, gene_list')"
  proof -
    from r have rl: "read_loop options ?ts 0 gene_list = Inr (gidx, gene_list')"
      by (simp add: read_line_def)
    from read_loop_count [OF rl] have c: "gidx = ?n" by simp
    from read_loop_writes [OF rl] have le: "gidx \<le> num_genes options" "gidx \<le> length ?ts"
      and f: "gene_list' = fold (\<lambda>(g, t) gl. gl[t := g]) (zip [0..<gidx] ?ts) gene_list"
      by simp_all
    have "gene_list' ! g = gene_list ! g" if "g \<notin> set (take gidx ?ts)" for g
    proof -
      from that have "g \<notin> snd ` set (zip [0..<gidx] ?ts)"
        by (simp add: snd_zip_upt [OF le(2)])
      then show ?thesis unfolding f by (rule fold_store_other)
    qed
    with c le f show ?thesis by blast
  qed
  have b: "\<exists>gl. read_line options fin idx gene_list = Inr (?n, gl)"
    if "\<forall>t \<in> set (take (num_genes options) (takeWhile (\<lambda>t. t < 2 ^ 32) ?ts)).
          t < length gene_list"
  proof -
    from that have "\<forall>t \<in> set (take (num_genes options - 0) (takeWhile (\<lambda>t. t < 2 ^ 32) ?ts)).
          t < length gene_list" by simp
    from read_loop_returns [OF this] obtain g gl where
      rl: "read_loop options ?ts 0 gene_list = Inr (g, gl)" by blast
    from read_loop_count [OF rl] have "g = ?n" by simp
    with rl show ?thesis by (simp add: read_line_def)
  qed
  have c: "\<exists>r. processPair options fin l0 l1 = Inr r"
    if "1 \<le> l0" "1 \<le> l1" "\<forall>t \<in> set (concat (drop 1 fin)). t < num_genes options"
      "1 \<le> num_genes options" "(num_genes options * num_genes options) mod 2 ^ 32 \<noteq> 0"
    by (rule processPair_total) (use that in simp_all)
  show ?thesis using a b c by blast
qed

theorem read_line_stores_witness:
  "length ([[2, 3], [1], [0, 1], [1, 0]] ! 1) = (1::nat) \<and>
   read_line \<lparr>num_genes = 2, num_lists = 3, pivot = 0, two_tailed = False,
                   num_procs = 1, mpi_id = 0\<rparr>
     [[2, 3], [1], [0, 1], [1, 0]] 1 [0, 0] = Inr (2, [1, 0]) \<and>
   (2::nat) = min 2 (length (takeWhile (\<lambda>t. t < 2 ^ 32)
                       (concat (drop 1 [[2, 3], [1], [0, 1], [1, 0::nat]])))) \<and>
   [1, 0] = fold (\<lambda>(g, t) gl. gl[t := g])
              (zip [0..<2] (concat (drop 1 [[2, 3], [1], [0, 1], [1, 0]]))) [0, 0::nat] \<and>
   read_line \<lparr>num_genes = 2, num_lists = 3, pivot = 0, two_tailed = False,
                   num_procs = 1, mpi_id = 0\<rparr>
     [[2, 3], [0, 1], [1, 0], [1]] 3 [0, 0] = Inr (1, [0, 0]) \<and>
   processPair \<lparr>num_genes = 2, num_lists = 3, pivot = 0, two_tailed = False,
                   num_procs = 1, mpi_id = 0\<rparr>
     [[2, 3], [1], [0, 1], [1, 0]] 1 2 = Inr (sqrt 2 / 2)"
  using read_line_stores
      [of "\<lparr>num_genes = 2, num_lists = 3, pivot = 0, two_tailed = False,
                   num_procs = 1, mpi_id = 0\<rparr>"
          "[[2, 3], [1], [0, 1], [1, 0]]" 1 "[0, 0]" 2 "[1, 0]" 1 2]
  by (simp add: scoreLists_def scan_upto_def total_weight_def build_buff_def first_line_def
        step_def calculateWeight_def nvalue_def update_rvalue_def upt_conv_Cons Let_def
        processPair_def scorePair_def readLineIndex_def read_line_def)

end
